theory Spec2Isabelle
  imports Main "HOL-Library.AList"
begin

section \<open>Data model of the Board ADT (src/board.ts)\<close>

text \<open>
  A JavaScript string is modelled as the list of its UTF-16 code units, each a natural
  number. Labels and player identifiers are such strings. Player identifiers are only
  compared with \<open>===\<close> and used as keys of a \<open>Map\<close>.
\<close>

type_synonym jsstring = "nat list"
type_synonym player = jsstring

text \<open>A position \<open>{ r, c }\<close>. The coordinates are numbers supplied by the caller; they are
  modelled as integers, so they may be negative or beyond the grid.\<close>

datatype pos = Pos (pos_r: int) (pos_c: int)

text \<open>A grid cell is \<open>null\<close> (\<open>None\<close>) or a slot object \<open>{ label, faceUp, controller }\<close>;
  \<open>controller === null\<close> is \<open>None\<close>.\<close>

record slot =
  label :: jsstring
  faceUp :: bool
  controller :: "player option"

text \<open>The deferred outcome \<open>{ kind: "matched" | "mismatched", first, second }\<close>.\<close>

datatype outcome =
    Matched (out_first: pos) (out_second: pos)
  | Mismatched (out_first: pos) (out_second: pos)

text \<open>
  The fields of the class. \<open>rows\<close> and \<open>cols\<close> are the lengths the constructor passes to
  \<open>Array.from\<close>, natural numbers. The two \<open>Map\<close>s are association lists in insertion order:
  \<open>Map.set\<close> on a present key replaces the value in place and on an absent key appends
  (\<open>AList.update\<close>), \<open>Map.delete\<close> removes the key (\<open>AList.delete\<close>), \<open>Map.get\<close> is
  \<open>map_of\<close>. The map \<open>pending\<close> stores \<open>null\<close> as a value (\<open>pending.set(p, null)\<close>), so
  its values are optional outcomes.
\<close>

record board =
  rows :: nat
  cols :: nat
  grid :: "slot option list list"
  firstSelection :: "(player \<times> pos) list"
  pending :: "(player \<times> outcome option) list"

text \<open>Every \<open>throw new Error(...)\<close> of board.ts, one constructor per message.\<close>

datatype error =
    InternalMissingLabel          \<comment> \<open>"Internal: missing label"\<close>
  | MalformedMissingHeader        \<comment> \<open>"Malformed board: missing header"\<close>
  | MalformedHeader jsstring      \<comment> \<open>"Malformed header '...', expected ROWxCOL"\<close>
  | RowsColsNotPositive           \<comment> \<open>"Rows/cols must be positive integers"\<close>
  | WrongCardCount nat nat        \<comment> \<open>"Malformed board: expected N card lines, got M"\<close>
  | InvalidCard jsstring          \<comment> \<open>"Invalid card '...'"\<close>
  | EmptySpace_1A                 \<comment> \<open>"1-A: empty space"\<close>
  | Controlled_1D                 \<comment> \<open>"1-D: card is controlled by another player (no waiting in Problem 1)"\<close>
  | NoFirstCard                   \<comment> \<open>"No first card selected for this player"\<close>
  | EmptySpace_2A                 \<comment> \<open>"2-A: second position is empty"\<close>
  | Controlled_2B                 \<comment> \<open>"2-B: second card is controlled"\<close>
  | InternalFirstMissing          \<comment> \<open>"Internal: first selection missing"\<close>
  | OutOfBounds pos               \<comment> \<open>"Out of bounds (r,c)"\<close>
  | RI_RowIndex                   \<comment> \<open>"RI: row index out of bounds"\<close>
  | RI_ColIndex                   \<comment> \<open>"RI: column index out of bounds"\<close>
  | RI_RowCount                   \<comment> \<open>"RI: wrong row count"\<close>
  | RI_ColCount                   \<comment> \<open>"RI: wrong col count"\<close>
  | RI_BadLabel                   \<comment> \<open>"RI: bad label"\<close>
  | RI_FaceDownControlled         \<comment> \<open>"RI: face-down card cannot be controlled"\<close>
  | RI_PendingOOB                 \<comment> \<open>"RI: pending pos OOB"\<close>

section \<open>Helpers of the class\<close>

text \<open>The regular expression \<open>/^[^\s\n\r]+$/u\<close>: a non-empty string none of whose
  characters is in the class \<open>\s\<close> of ECMAScript (white space and line terminators, all of
  them single code units).\<close>

definition is_space :: "nat \<Rightarrow> bool" where
  "is_space x \<longleftrightarrow>
     x \<in> {9, 10, 11, 12, 13, 32, 160, 5760, 8232, 8233, 8239, 8287, 12288, 65279}
     \<or> (8192 \<le> x \<and> x \<le> 8202)"

definition cardRe :: "jsstring \<Rightarrow> bool" where
  "cardRe s \<longleftrightarrow> s \<noteq> [] \<and> list_all (\<lambda>x. \<not> is_space x) s"

text \<open>\<open>row(r)\<close>: \<open>this.grid[r]\<close>, throwing when it is \<open>undefined\<close>.\<close>

definition row :: "board \<Rightarrow> int \<Rightarrow> error + slot option list" where
  "row b i = (if 0 \<le> i \<and> i < int (length (grid b)) then Inr (grid b ! nat i)
              else Inl RI_RowIndex)"

text \<open>\<open>getCell(r, c)\<close>: \<open>row[c] ?? null\<close>, so a column out of range reads as \<open>null\<close>.\<close>

definition getCell :: "board \<Rightarrow> int \<Rightarrow> int \<Rightarrow> error + slot option" where
  "getCell b i j =
     (case row b i of
        Inl e \<Rightarrow> Inl e
      | Inr rw \<Rightarrow> Inr (if 0 \<le> j \<and> j < int (length rw) then rw ! nat j else None))"

text \<open>An array store \<open>row[c] = val\<close> with \<open>0 \<le> c\<close>: beyond the end JavaScript extends the
  array with holes, which \<open>getCell\<close> reads as \<open>null\<close>.\<close>

definition js_store :: "'a option list \<Rightarrow> nat \<Rightarrow> 'a option \<Rightarrow> 'a option list" where
  "js_store xs j v = (if j < length xs then xs[j := v]
                      else xs @ replicate (j - length xs) None @ [v])"

text \<open>\<open>setCell(r, c, val)\<close>.\<close>

definition setCell :: "board \<Rightarrow> int \<Rightarrow> int \<Rightarrow> slot option \<Rightarrow> error + board" where
  "setCell b i j val =
     (case row b i of
        Inl e \<Rightarrow> Inl e
      | Inr rw \<Rightarrow>
          if j < 0 \<or> j \<ge> int (cols b) then Inl RI_ColIndex
          else Inr (b\<lparr>grid := (grid b)[nat i := js_store rw (nat j) val]\<rparr>))"

definition within :: "board \<Rightarrow> pos \<Rightarrow> bool" where
  "within b p \<longleftrightarrow> pos_r p \<ge> 0 \<and> pos_r p < int (rows b) \<and> pos_c p \<ge> 0 \<and> pos_c p < int (cols b)"

definition slotAt :: "board \<Rightarrow> pos \<Rightarrow> error + slot option" where
  "slotAt b p = (if \<not> within b p then Inl (OutOfBounds p) else getCell b (pos_r p) (pos_c p))"

text \<open>
  The methods assign to fields of a slot object obtained from the grid
  (\<open>cell.faceUp = false\<close>, \<open>s1.controller = by\<close>). Every slot object is created by the
  constructor for exactly one cell and cells are otherwise only overwritten with \<open>null\<close>, so
  an object is referenced from one grid position only: assigning through the reference read
  at position \<open>q\<close> is an update of the slot stored at \<open>q\<close>. Two references read at the same
  position are the same object, which updating by position reproduces.
\<close>

definition assign :: "board \<Rightarrow> pos \<Rightarrow> (slot \<Rightarrow> slot) \<Rightarrow> board" where
  "assign b q f =
     (let i = nat (pos_r q); j = nat (pos_c q) in
      if 0 \<le> pos_r q \<and> 0 \<le> pos_c q \<and> i < length (grid b) \<and> j < length (grid b ! i)
      then b\<lparr>grid := (grid b)[i := (grid b ! i)[j := map_option f (grid b ! i ! j)]]\<rparr>
      else b)"

text \<open>\<open>this.pending.get(p) ?? null\<close>.\<close>

definition pending_get :: "board \<Rightarrow> player \<Rightarrow> outcome option" where
  "pending_get b p = (case map_of (pending b) p of None \<Rightarrow> None | Some out \<Rightarrow> out)"

definition hasFirstSelection :: "board \<Rightarrow> player \<Rightarrow> bool" where
  "hasFirstSelection b p \<longleftrightarrow> map_of (firstSelection b) p \<noteq> None"

subsection \<open>checkRep\<close>

text \<open>The first exception raised by a sequence of checks, each \<open>None\<close> when it passes.\<close>

fun first_error :: "error option list \<Rightarrow> error option" where
  "first_error [] = None"
| "first_error (None # es) = first_error es"
| "first_error (Some e # es) = Some e"

text \<open>The body of the nested \<open>for\<close> loop over \<open>r < rows\<close>, \<open>c < cols\<close>.\<close>

definition check_cell :: "board \<Rightarrow> nat \<Rightarrow> nat \<Rightarrow> error option" where
  "check_cell b i j =
     (case getCell b (int i) (int j) of
        Inl e \<Rightarrow> Some e
      | Inr None \<Rightarrow> None
      | Inr (Some s) \<Rightarrow>
          if \<not> cardRe (label s) then Some RI_BadLabel
          else if \<not> faceUp s \<and> controller s \<noteq> None then Some RI_FaceDownControlled
          else None)"

text \<open>The body of the loop over the entries of \<open>pending\<close>.\<close>

definition check_pending :: "board \<Rightarrow> player \<times> outcome option \<Rightarrow> error option" where
  "check_pending b e =
     (case snd e of
        None \<Rightarrow> None
      | Some out \<Rightarrow>
          if \<not> within b (out_first out) then Some RI_PendingOOB
          else if \<not> within b (out_second out) then Some RI_PendingOOB
          else None)"

text \<open>\<open>checkRep()\<close> returns normally (\<open>None\<close>) or throws (\<open>Some e\<close>); it does not write.\<close>

definition checkRep :: "board \<Rightarrow> error option" where
  "checkRep b =
     (if length (grid b) \<noteq> rows b then Some RI_RowCount
      else if \<not> list_all (\<lambda>rw. length rw = cols b) (grid b) then Some RI_ColCount
      else
        (case first_error
                (concat (map (\<lambda>i. map (\<lambda>j. check_cell b i j) [0..<cols b]) [0..<rows b])) of
           Some e \<Rightarrow> Some e
         | None \<Rightarrow> first_error (map (check_pending b) (pending b))))"

section \<open>The operations\<close>

text \<open>
  A method that throws keeps the writes it made before the exception. Every mutating method
  is therefore a function from the board to the pair of the exception, if any
  (\<open>None\<close>: the method returned), and the board it leaves behind.
\<close>

type_synonym outcome_of_call = "error option \<times> board"

text \<open>The constructor; an exception in a constructor yields no object.\<close>

definition initial_grid :: "nat \<Rightarrow> nat \<Rightarrow> jsstring list \<Rightarrow> slot option list list" where
  "initial_grid n m labels =
     map (\<lambda>i. map (\<lambda>j. Some \<lparr>label = labels ! (i * m + j), faceUp = False, controller = None\<rparr>)
                  [0..<m]) [0..<n]"

definition construct :: "nat \<Rightarrow> nat \<Rightarrow> jsstring list \<Rightarrow> error + board" where
  "construct n m labels =
     (if list_ex (\<lambda>i. list_ex (\<lambda>j. \<not> i * m + j < length labels) [0..<m]) [0..<n]
      then Inl InternalMissingLabel
      else
        (let b = \<lparr>rows = n, cols = m, grid = initial_grid n m labels,
                  firstSelection = [], pending = []\<rparr>
         in case checkRep b of Some e \<Rightarrow> Inl e | None \<Rightarrow> Inr b))"

text \<open>The body of the loop \<open>for (const q of [first, second])\<close> of the mismatched branch.\<close>

definition flip_down_if_free :: "board \<Rightarrow> pos \<Rightarrow> error + board" where
  "flip_down_if_free b q =
     (case getCell b (pos_r q) (pos_c q) of
        Inl e \<Rightarrow> Inl e
      | Inr None \<Rightarrow> Inr b
      | Inr (Some cell) \<Rightarrow>
          if faceUp cell \<and> controller cell = None
          then Inr (assign b q (\<lambda>s. s\<lparr>faceUp := False\<rparr>))
          else Inr b)"

text \<open>The last two statements of \<open>settleBeforeNewFirstMove\<close>.\<close>

definition clear_pending :: "player \<Rightarrow> board \<Rightarrow> outcome_of_call" where
  "clear_pending p b =
     (let b' = b\<lparr>pending := AList.update p None (pending b)\<rparr> in (checkRep b', b'))"

definition settleBeforeNewFirstMove :: "player \<Rightarrow> board \<Rightarrow> outcome_of_call" where
  "settleBeforeNewFirstMove p b =
     (case pending_get b p of
        None \<Rightarrow> (None, b)
      | Some (Matched a a') \<Rightarrow>
          (case setCell b (pos_r a) (pos_c a) None of
             Inl e \<Rightarrow> (Some e, b)
           | Inr b1 \<Rightarrow>
               (case setCell b1 (pos_r a') (pos_c a') None of
                  Inl e \<Rightarrow> (Some e, b1)
                | Inr b2 \<Rightarrow> clear_pending p b2))
      | Some (Mismatched a a') \<Rightarrow>
          (case flip_down_if_free b a of
             Inl e \<Rightarrow> (Some e, b)
           | Inr b1 \<Rightarrow>
               (case flip_down_if_free b1 a' of
                  Inl e \<Rightarrow> (Some e, b1)
                | Inr b2 \<Rightarrow> clear_pending p b2)))"

text \<open>The last two statements of \<open>flipFirst\<close>.\<close>

definition record_first :: "player \<Rightarrow> pos \<Rightarrow> board \<Rightarrow> outcome_of_call" where
  "record_first by q b =
     (let b' = b\<lparr>firstSelection := AList.update by q (firstSelection b)\<rparr> in (checkRep b', b'))"

definition flipFirst :: "pos \<Rightarrow> player \<Rightarrow> board \<Rightarrow> outcome_of_call" where
  "flipFirst q by b =
     (case settleBeforeNewFirstMove by b of
        (Some e, b1) \<Rightarrow> (Some e, b1)
      | (None, b1) \<Rightarrow>
          (case slotAt b1 q of
             Inl e \<Rightarrow> (Some e, b1)
           | Inr None \<Rightarrow> (Some EmptySpace_1A, b1)
           | Inr (Some s) \<Rightarrow>
               if \<not> faceUp s
               then record_first by q
                      (assign (assign b1 q (\<lambda>s. s\<lparr>faceUp := True\<rparr>)) q
                         (\<lambda>s. s\<lparr>controller := Some by\<rparr>))
               else if controller s = None
               then record_first by q (assign b1 q (\<lambda>s. s\<lparr>controller := Some by\<rparr>))
               else if controller s \<noteq> Some by then (Some Controlled_1D, b1)
               else record_first by q b1))"

definition relinquishFirstOnly :: "player \<Rightarrow> board \<Rightarrow> outcome_of_call" where
  "relinquishFirstOnly by b =
     (case map_of (firstSelection b) by of
        None \<Rightarrow> (None, b)
      | Some first \<Rightarrow>
          (case slotAt b first of
             Inl e \<Rightarrow> (Some e, b)
           | Inr s1 \<Rightarrow>
               (let b1 = (if s1 \<noteq> None then assign b first (\<lambda>s. s\<lparr>controller := None\<rparr>) else b);
                    b2 = b1\<lparr>firstSelection := AList.delete by (firstSelection b1)\<rparr>
                in (checkRep b2, b2))))"

text \<open>A failing second flip: \<open>this.relinquishFirstOnly(by); throw new Error(...)\<close>.\<close>

definition relinquish_then_throw :: "player \<Rightarrow> error \<Rightarrow> board \<Rightarrow> outcome_of_call" where
  "relinquish_then_throw by e b =
     (case relinquishFirstOnly by b of
        (Some e', b1) \<Rightarrow> (Some e', b1)
      | (None, b1) \<Rightarrow> (Some e, b1))"

text \<open>The resolution of a second flip, from \<open>const matched = ...\<close> on.\<close>

definition resolve :: "pos \<Rightarrow> pos \<Rightarrow> player \<Rightarrow> slot \<Rightarrow> slot \<Rightarrow> board \<Rightarrow> outcome_of_call" where
  "resolve first q by s1 s2 b =
     (let b1 =
        (if label s1 = label s2
         then (assign (assign b first (\<lambda>s. s\<lparr>controller := Some by\<rparr>)) q
                 (\<lambda>s. s\<lparr>controller := Some by\<rparr>))
                \<lparr>pending := AList.update by (Some (Matched first q)) (pending b)\<rparr>
         else (assign (assign b first (\<lambda>s. s\<lparr>controller := None\<rparr>)) q
                 (\<lambda>s. s\<lparr>controller := None\<rparr>))
                \<lparr>pending := AList.update by (Some (Mismatched first q)) (pending b)\<rparr>);
          b2 = b1\<lparr>firstSelection := AList.delete by (firstSelection b1)\<rparr>
      in (checkRep b2, b2))"

definition flipSecond :: "pos \<Rightarrow> player \<Rightarrow> board \<Rightarrow> outcome_of_call" where
  "flipSecond q by b =
     (case map_of (firstSelection b) by of
        None \<Rightarrow> (Some NoFirstCard, b)
      | Some first \<Rightarrow>
          (case (if within b q then getCell b (pos_r q) (pos_c q) else Inr None) of
             Inl e \<Rightarrow> (Some e, b)
           | Inr None \<Rightarrow> relinquish_then_throw by EmptySpace_2A b
           | Inr (Some s2) \<Rightarrow>
               if faceUp s2 \<and> controller s2 \<noteq> None
               then relinquish_then_throw by Controlled_2B b
               else
                 (let b1 = (if \<not> faceUp s2 then assign b q (\<lambda>s. s\<lparr>faceUp := True\<rparr>) else b)
                  in case slotAt b1 first of
                       Inl e \<Rightarrow> (Some e, b1)
                     | Inr None \<Rightarrow> (Some InternalFirstMissing, b1)
                     | Inr (Some s1) \<Rightarrow> resolve first q by s1 s2 b1)))"

subsection \<open>snapshot\<close>

text \<open>The decimal numeral that a template literal prints for a non-negative integer.\<close>

fun decimal :: "nat \<Rightarrow> jsstring" where
  "decimal n = (if n < 10 then [48 + n] else decimal (n div 10) @ [48 + n mod 10])"

declare decimal.simps [simp del]

text \<open>The string literals \<open>"none"\<close>, \<open>"down"\<close>, \<open>"my "\<close>, \<open>"up "\<close> and the character \<open>"x"\<close>.\<close>

definition str_none :: jsstring where "str_none = [110, 111, 110, 101]"
definition str_down :: jsstring where "str_down = [100, 111, 119, 110]"
definition str_my :: jsstring where "str_my = [109, 121, 32]"
definition str_up :: jsstring where "str_up = [117, 112, 32]"
definition chr_x :: nat where "chr_x = 120"

text \<open>The line pushed for one cell.\<close>

definition cell_line :: "player \<Rightarrow> slot option \<Rightarrow> jsstring" where
  "cell_line forPlayer cell =
     (case cell of
        None \<Rightarrow> str_none
      | Some s \<Rightarrow>
          if \<not> faceUp s then str_down
          else if controller s = Some forPlayer then str_my @ label s
          else str_up @ label s)"

text \<open>The results of a sequence of calls, or the first exception among them.\<close>

fun collect :: "(error + 'a) list \<Rightarrow> error + 'a list" where
  "collect [] = Inr []"
| "collect (Inl e # rs) = Inl e"
| "collect (Inr x # rs) = (case collect rs of Inl e \<Rightarrow> Inl e | Inr xs \<Rightarrow> Inr (x # xs))"

text \<open>\<open>out.join("\n")\<close>.\<close>

fun join_nl :: "jsstring list \<Rightarrow> jsstring" where
  "join_nl [] = []"
| "join_nl [l] = l"
| "join_nl (l # ls) = l @ [10] @ join_nl ls"

text \<open>\<open>snapshot(forPlayer)\<close> reads the board and returns a string, or throws what \<open>getCell\<close>
  throws; it has no board to return because it assigns to nothing.\<close>

definition snapshot :: "board \<Rightarrow> player \<Rightarrow> error + jsstring" where
  "snapshot b forPlayer =
     (case collect (concat (map (\<lambda>i. map (\<lambda>j. getCell b (int i) (int j)) [0..<cols b])
                                [0..<rows b])) of
        Inl e \<Rightarrow> Inl e
      | Inr cells \<Rightarrow>
          Inr (join_nl ((decimal (rows b) @ [chr_x] @ decimal (cols b))
                        # map (cell_line forPlayer) cells) @ [10]))"

subsection \<open>parseFromFile\<close>

text \<open>\<open>text.replace(/\r\n/g, "\n")\<close> and \<open>.replace(/\r/g, "\n")\<close>.\<close>

fun replace_crlf :: "jsstring \<Rightarrow> jsstring" where
  "replace_crlf (x # y # xs) =
     (if x = 13 \<and> y = 10 then 10 # replace_crlf xs else x # replace_crlf (y # xs))"
| "replace_crlf xs = xs"

definition replace_cr :: "jsstring \<Rightarrow> jsstring" where
  "replace_cr = map (\<lambda>x. if x = 13 then 10 else x)"

text \<open>\<open>.split("\n")\<close>: the segments between newlines; the empty string gives one empty
  segment.\<close>

fun split_nl :: "jsstring \<Rightarrow> jsstring list" where
  "split_nl [] = [[]]"
| "split_nl (x # xs) =
     (if x = 10 then [] # split_nl xs
      else (case split_nl xs of l # ls \<Rightarrow> (x # l) # ls | [] \<Rightarrow> [[x]]))"

text \<open>The constant \<open>lines\<close> of \<open>parseFromFile\<close>.\<close>

definition file_lines :: "jsstring \<Rightarrow> jsstring list" where
  "file_lines txt = filter (\<lambda>l. length l > 0) (split_nl (replace_cr (replace_crlf txt)))"

text \<open>The regular expression \<open>/^([0-9]+)x([0-9]+)$/\<close>: the two groups of a match.\<close>

definition is_digit :: "nat \<Rightarrow> bool" where
  "is_digit x \<longleftrightarrow> 48 \<le> x \<and> x \<le> 57"

definition match_header :: "jsstring \<Rightarrow> (jsstring \<times> jsstring) option" where
  "match_header h =
     (case dropWhile is_digit h of
        [] \<Rightarrow> None
      | x # ds \<Rightarrow>
          if takeWhile is_digit h \<noteq> [] \<and> x = chr_x \<and> ds \<noteq> [] \<and> list_all is_digit ds
          then Some (takeWhile is_digit h, ds) else None)"

text \<open>
  \<open>parseInt(ds, 10)\<close> on a string of decimal digits: the number they denote. A JavaScript
  number is a double, so the value is exact below \<open>2^53\<close>; beyond, \<open>parseInt\<close> rounds. A
  header that large cannot equal the number of lines of a file, so the rounding can change
  which exception is thrown, never whether one is thrown. The test \<open>Number.isFinite\<close> always
  passes on a natural number.
\<close>

definition parseInt :: "jsstring \<Rightarrow> nat" where
  "parseInt ds = foldl (\<lambda>a d. 10 * a + (d - 48)) 0 ds"

text \<open>\<open>parseFromFile\<close>, as a function of the text that \<open>fs.readFile\<close> returns.\<close>

definition parseFromFile :: "jsstring \<Rightarrow> error + board" where
  "parseFromFile txt =
     (case file_lines txt of
        [] \<Rightarrow> Inl MalformedMissingHeader
      | header # cards \<Rightarrow>
          (case match_header header of
             None \<Rightarrow> Inl (MalformedHeader header)
           | Some (g1, g2) \<Rightarrow>
               (let n = parseInt g1; m = parseInt g2 in
                if n \<le> 0 \<or> m \<le> 0 then Inl RowsColsNotPositive
                else if length cards \<noteq> n * m then Inl (WrongCardCount (n * m) (length cards))
                else (case find (\<lambda>c. \<not> cardRe c) cards of
                        Some c \<Rightarrow> Inl (InvalidCard c)
                      | None \<Rightarrow> construct n m cards))))"

section \<open>Reachable boards\<close>

text \<open>
  The boards a client can obtain: the constructor's result, and the board left behind by any
  call of a mutating method on such a board, whether the call returned or threw.
  (\<open>snapshot\<close> and \<open>hasFirstSelection\<close> leave the board as it is.)
\<close>

inductive reachable :: "board \<Rightarrow> bool" where
  reach_construct: "construct n m labels = Inr b \<Longrightarrow> reachable b"
| reach_settle: "reachable b \<Longrightarrow> reachable (snd (settleBeforeNewFirstMove p b))"
| reach_flipFirst: "reachable b \<Longrightarrow> reachable (snd (flipFirst q p b))"
| reach_flipSecond: "reachable b \<Longrightarrow> reachable (snd (flipSecond q p b))"

text \<open>The invariant of the claim, over the cells stored in the grid.\<close>

definition face_down_uncontrolled :: "board \<Rightarrow> bool" where
  "face_down_uncontrolled b \<longleftrightarrow>
     list_all (list_all (\<lambda>cell. case cell of
                                   None \<Rightarrow> True
                                 | Some s \<Rightarrow> \<not> faceUp s \<longrightarrow> controller s = None)) (grid b)"

section \<open>Predicates and slot updates used in the proofs\<close>

text \<open>What \<open>checkRep\<close> checks, as predicates: the shape of the grid, the state of every
  slot, and the positions of the pending outcomes.\<close>

definition dims_ok :: "board \<Rightarrow> bool" where
  "dims_ok b \<longleftrightarrow> length (grid b) = rows b \<and> (\<forall>rw \<in> set (grid b). length rw = cols b)"

definition slot_ok :: "slot \<Rightarrow> bool" where
  "slot_ok s \<longleftrightarrow> cardRe (label s) \<and> (faceUp s \<or> controller s = None)"

definition cells_ok :: "board \<Rightarrow> bool" where
  "cells_ok b \<longleftrightarrow> (\<forall>i j s. getCell b i j = Inr (Some s) \<longrightarrow> slot_ok s)"

definition pending_ok :: "board \<Rightarrow> bool" where
  "pending_ok b \<longleftrightarrow>
     (\<forall>e \<in> set (pending b). \<forall>out. snd e = Some out \<longrightarrow>
        within b (out_first out) \<and> within b (out_second out))"

abbreviation cellAt :: "board \<Rightarrow> pos \<Rightarrow> error + slot option" where
  "cellAt b q \<equiv> getCell b (pos_r q) (pos_c q)"

text \<open>A position that addresses an existing array element of the grid.\<close>

definition in_grid :: "board \<Rightarrow> pos \<Rightarrow> bool" where
  "in_grid b q \<longleftrightarrow> 0 \<le> pos_r q \<and> 0 \<le> pos_c q \<and> nat (pos_r q) < length (grid b)
     \<and> nat (pos_c q) < length (grid b ! nat (pos_r q))"

text \<open>What one iteration of the mismatched loop of \<open>settleBeforeNewFirstMove\<close> does to the
  slot it visits.\<close>

definition flip_down :: "slot \<Rightarrow> slot" where
  "flip_down s = (if faceUp s \<and> controller s = None then s\<lparr>faceUp := False\<rparr> else s)"

text \<open>What a successful first flip by \<open>p\<close> does to the slot it selects.\<close>

definition take_first :: "player \<Rightarrow> slot \<Rightarrow> slot" where
  "take_first p s = s\<lparr>faceUp := True, controller := Some p\<rparr>"

text \<open>The assignment \<open>s.controller = v\<close>.\<close>

definition set_controller :: "player option \<Rightarrow> slot \<Rightarrow> slot" where
  "set_controller v s = s\<lparr>controller := v\<rparr>"

text \<open>The assignment \<open>s.faceUp = true\<close>.\<close>

definition turn_up :: "slot \<Rightarrow> slot" where
  "turn_up s = s\<lparr>faceUp := True\<rparr>"

text \<open>The exceptions that \<open>parseFromFile\<close> throws itself.\<close>

definition format_error :: "error \<Rightarrow> bool" where
  "format_error e \<longleftrightarrow>
     (case e of
        MalformedMissingHeader \<Rightarrow> True
      | MalformedHeader h \<Rightarrow> True
      | RowsColsNotPositive \<Rightarrow> True
      | WrongCardCount n m \<Rightarrow> True
      | InvalidCard c \<Rightarrow> True
      | _ \<Rightarrow> False)"

text \<open>
  The facts that make the invariant inductive: a recorded first selection points at a
  face-up slot controlled by its player; the cards of a pending match are still controlled
  by the player who matched them, or gone; a player with a first selection has no pending
  outcome.
\<close>

definition first_held :: "board \<Rightarrow> bool" where
  "first_held b \<longleftrightarrow>
     (\<forall>p f. map_of (firstSelection b) p = Some f \<longrightarrow>
        (\<exists>s. cellAt b f = Inr (Some s) \<and> faceUp s \<and> controller s = Some p))"

definition matched_owned :: "board \<Rightarrow> bool" where
  "matched_owned b \<longleftrightarrow>
     (\<forall>p a a' x s. pending_get b p = Some (Matched a a') \<longrightarrow> x = a \<or> x = a' \<longrightarrow>
        cellAt b x = Inr (Some s) \<longrightarrow> controller s = Some p)"

definition turn_exclusive :: "board \<Rightarrow> bool" where
  "turn_exclusive b \<longleftrightarrow>
     (\<forall>p f. map_of (firstSelection b) p = Some f \<longrightarrow> pending_get b p = None)"

definition Inv :: "board \<Rightarrow> bool" where
  "Inv b \<longleftrightarrow> checkRep b = None \<and> first_held b \<and> matched_owned b \<and> turn_exclusive b"

section \<open>Concrete boards and texts\<close>

text \<open>Concrete labels (\<open>"A"\<close>, \<open>"B"\<close>), players (\<open>"a"\<close>, \<open>"b"\<close>) and boards on which the
  theorems below are instantiated.\<close>

definition card_A :: jsstring where "card_A = [65]"
definition card_B :: jsstring where "card_B = [66]"
definition alice :: player where "alice = [97]"
definition bob :: player where "bob = [98]"

text \<open>The 2x2 board built by the constructor from the labels A, A, B, B.\<close>

definition board_fresh :: board where
  "board_fresh =
     \<lparr>rows = 2, cols = 2,
      grid = [[Some \<lparr>label = card_A, faceUp = False, controller = None\<rparr>,
               Some \<lparr>label = card_A, faceUp = False, controller = None\<rparr>],
              [Some \<lparr>label = card_B, faceUp = False, controller = None\<rparr>,
               Some \<lparr>label = card_B, faceUp = False, controller = None\<rparr>]],
      firstSelection = [], pending = []\<rparr>"

text \<open>The fresh 2x2 board after \<open>flipFirst((0,0), alice)\<close>.\<close>

definition board_alice_first :: board where
  "board_alice_first =
     \<lparr>rows = 2, cols = 2,
      grid = [[Some \<lparr>label = card_A, faceUp = True, controller = Some alice\<rparr>,
               Some \<lparr>label = card_A, faceUp = False, controller = None\<rparr>],
              [Some \<lparr>label = card_B, faceUp = False, controller = None\<rparr>,
               Some \<lparr>label = card_B, faceUp = False, controller = None\<rparr>]],
      firstSelection = [(alice, Pos 0 0)], pending = []\<rparr>"


text \<open>A 2x2 board after \<open>flipFirst((0,0), alice)\<close> and \<open>flipSecond((0,1), alice)\<close>: a match
  awaiting settlement.\<close>

definition board_matched :: board where
  "board_matched =
     \<lparr>rows = 2, cols = 2,
      grid = [[Some \<lparr>label = card_A, faceUp = True, controller = Some alice\<rparr>,
               Some \<lparr>label = card_A, faceUp = True, controller = Some alice\<rparr>],
              [Some \<lparr>label = card_B, faceUp = False, controller = None\<rparr>,
               Some \<lparr>label = card_B, faceUp = False, controller = None\<rparr>]],
      firstSelection = [],
      pending = [(alice, Some (Matched (Pos 0 0) (Pos 0 1)))]\<rparr>"

text \<open>A board on which bob's pair of B cards has been removed and alice's matched pair of A
  cards awaits settlement.\<close>

definition board_gap :: board where
  "board_gap =
     \<lparr>rows = 2, cols = 2,
      grid = [[Some \<lparr>label = card_A, faceUp = True, controller = Some alice\<rparr>,
               Some \<lparr>label = card_A, faceUp = True, controller = Some alice\<rparr>],
              [None, None]],
      firstSelection = [],
      pending = [(bob, None), (alice, Some (Matched (Pos 0 0) (Pos 0 1)))]\<rparr>"

text \<open>The text \<open>"2x2\r\nA\nA\n\nB\rB\n"\<close> and the text \<open>"2x2\nA\nA\nB\n"\<close>, one card short.\<close>

definition text_good :: jsstring where
  "text_good = [50, 120, 50, 13, 10, 65, 10, 65, 10, 10, 66, 13, 66, 10]"

definition text_short :: jsstring where
  "text_short = [50, 120, 50, 10, 65, 10, 65, 10, 66, 10]"

section \<open>Reading and writing cells\<close>

lemma assign_fields [simp]:
  "rows (assign b q f) = rows b" "cols (assign b q f) = cols b"
  "firstSelection (assign b q f) = firstSelection b" "pending (assign b q f) = pending b"
  "length (grid (assign b q f)) = length (grid b)"
  by (simp_all add: assign_def Let_def)

lemma getCell_int:
  "getCell b (int n) (int m) =
     (if n < length (grid b) then Inr (if m < length (grid b ! n) then grid b ! n ! m else None)
      else Inl RI_RowIndex)"
  by (simp add: getCell_def row_def)

lemma getCell_neg:
  "i < 0 \<Longrightarrow> getCell b i j = Inl RI_RowIndex"
  "0 \<le> i \<Longrightarrow> j < 0 \<Longrightarrow> getCell b i j = (if i < int (length (grid b)) then Inr None else Inl RI_RowIndex)"
  by (simp_all add: getCell_def row_def)

lemma assign_int:
  "assign b (Pos (int n) (int m)) f =
     (if n < length (grid b) \<and> m < length (grid b ! n)
      then b\<lparr>grid := (grid b)[n := (grid b ! n)[m := map_option f (grid b ! n ! m)]]\<rparr>
      else b)"
  by (simp add: assign_def)

lemma assign_neg: "i < 0 \<or> j < 0 \<Longrightarrow> assign b (Pos i j) f = b"
  by (auto simp: assign_def)

lemma getCell_assign_nat:
  "getCell (assign b (Pos (int n) (int m)) f) (int n') (int m') =
     (if n' = n \<and> m' = m
      then (case getCell b (int n') (int m') of Inl e \<Rightarrow> Inl e | Inr x \<Rightarrow> Inr (map_option f x))
      else getCell b (int n') (int m'))"
  unfolding getCell_int assign_int
  by (simp add: nth_list_update)

lemma getCell_assign:
  "getCell (assign b q f) i j =
     (if Pos i j = q then (case getCell b i j of Inl e \<Rightarrow> Inl e | Inr x \<Rightarrow> Inr (map_option f x))
      else getCell b i j)"
proof (cases q)
  case (Pos qi qj)
  show ?thesis
  proof (cases "qi < 0 \<or> qj < 0")
    case True
    then have "assign b q f = b" unfolding Pos by (rule assign_neg)
    moreover have "Pos i j = q \<Longrightarrow> (case getCell b i j of Inl e \<Rightarrow> Inl e | Inr x \<Rightarrow> Inr (map_option f x)) = getCell b i j"
      using True Pos by (cases "qi < 0") (auto simp: getCell_neg not_less)
    ultimately show ?thesis by simp
  next
    case False
    then obtain n m where nm: "qi = int n" "qj = int m"
      by (metis not_less zero_le_imp_eq_int)
    show ?thesis
    proof (cases "i < 0")
      case True
      then show ?thesis by (simp add: getCell_neg)
    next
      case iF: False
      then obtain n' where n': "i = int n'" by (metis not_less zero_le_imp_eq_int)
      show ?thesis
      proof (cases "j < 0")
        case True
        then show ?thesis using iF Pos nm by (auto simp add: getCell_neg)
      next
        case False
        then obtain m' where m': "j = int m'" by (metis not_less zero_le_imp_eq_int)
        show ?thesis unfolding Pos nm n' m' getCell_assign_nat by simp
      qed
    qed
  qed
qed

lemma nth_js_store:
  "(if j' < length (js_store xs j v) then js_store xs j v ! j' else None) =
   (if j' = j then v else if j' < length xs then xs ! j' else None)"
  by (auto simp: js_store_def nth_list_update nth_append nth_Cons')

lemma setCell_Inr:
  "setCell b i j v = Inr b' \<longleftrightarrow>
     0 \<le> i \<and> i < int (length (grid b)) \<and> 0 \<le> j \<and> j < int (cols b) \<and>
     b' = b\<lparr>grid := (grid b)[nat i := js_store (grid b ! nat i) (nat j) v]\<rparr>"
  by (auto simp: setCell_def row_def)

lemma getCell_setCell:
  assumes "setCell b i j v = Inr b'"
  shows "getCell b' i' j' = (if i' = i \<and> j' = j then Inr v else getCell b i' j')"
proof -
  from assms have r: "0 \<le> i" "i < int (length (grid b))" "0 \<le> j"
    and b': "b' = b\<lparr>grid := (grid b)[nat i := js_store (grid b ! nat i) (nat j) v]\<rparr>"
    by (simp_all add: setCell_Inr)
  from r obtain n m where nm: "i = int n" "j = int m" "n < length (grid b)"
    by (metis nat_less_iff zero_le_imp_eq_int nat_int)
  have len: "length (grid b') = length (grid b)" by (simp add: b')
  show ?thesis
  proof (cases "i' < 0")
    case True
    with r show ?thesis by (simp add: getCell_neg)
  next
    case False
    then obtain n' where n': "i' = int n'" by (metis not_less zero_le_imp_eq_int)
    show ?thesis
    proof (cases "j' < 0")
      case True
      with r n' len show ?thesis by (simp add: getCell_neg)
    next
      case False
      then obtain m' where m': "j' = int m'" by (metis not_less zero_le_imp_eq_int)
      show ?thesis
        unfolding n' m' nm getCell_int
        using nm(3) nth_js_store[of m' "grid b ! n" m v]
        by (auto simp: b' nm nth_list_update)
    qed
  qed
qed


lemma first_error_None: "first_error es = None \<longleftrightarrow> (\<forall>e \<in> set es. e = None)"
  by (induction es rule: first_error.induct) auto

lemma getCell_SomeD:
  assumes "getCell b i j = Inr (Some s)"
  obtains n m where "i = int n" "j = int m" "n < length (grid b)" "m < length (grid b ! n)"
    "grid b ! n ! m = Some s"
proof -
  from assms have i: "0 \<le> i" "i < int (length (grid b))"
    by (auto simp: getCell_def row_def split: if_splits)
  then obtain n where n: "i = int n" "n < length (grid b)"
    by (metis nat_less_iff zero_le_imp_eq_int nat_int)
  from assms n have j: "0 \<le> j" "j < int (length (grid b ! n))"
    by (auto simp: getCell_def row_def split: if_splits)
  then obtain m where m: "j = int m" "m < length (grid b ! n)"
    by (metis nat_less_iff zero_le_imp_eq_int nat_int)
  from assms n m have "grid b ! n ! m = Some s" by (simp add: getCell_int)
  with n m that show thesis by blast
qed

lemma check_cell_None:
  assumes "i < length (grid b)"
  shows "check_cell b i j = None \<longleftrightarrow> (\<forall>s. getCell b (int i) (int j) = Inr (Some s) \<longrightarrow> slot_ok s)"
  using assms by (auto simp: check_cell_def getCell_int slot_ok_def split: option.splits)

lemma check_pending_None:
  "check_pending b e = None \<longleftrightarrow>
     (\<forall>out. snd e = Some out \<longrightarrow> within b (out_first out) \<and> within b (out_second out))"
  by (auto simp: check_pending_def split: option.splits)

lemma cells_loop_None:
  assumes "dims_ok b"
  shows "first_error (concat (map (\<lambda>i. map (\<lambda>j. check_cell b i j) [0..<cols b]) [0..<rows b])) = None
         \<longleftrightarrow> cells_ok b"
proof
  assume L: "first_error (concat (map (\<lambda>i. map (\<lambda>j. check_cell b i j) [0..<cols b]) [0..<rows b])) = None"
  then have all: "\<And>i j. i < rows b \<Longrightarrow> j < cols b \<Longrightarrow> check_cell b i j = None"
    by (auto simp: first_error_None)
  show "cells_ok b"
    unfolding cells_ok_def
  proof (intro allI impI)
    fix i j s assume g: "getCell b i j = Inr (Some s)"
    then obtain n m where nm: "i = int n" "j = int m" "n < length (grid b)" "m < length (grid b ! n)"
      by (rule getCell_SomeD)
    with assms have "n < rows b" "m < cols b" by (auto simp: dims_ok_def)
    then have "check_cell b n m = None" by (rule all)
    with nm g show "slot_ok s" by (simp add: check_cell_None)
  qed
next
  assume "cells_ok b"
  then have "\<And>i j. i < rows b \<Longrightarrow> check_cell b i j = None"
    using assms by (simp add: check_cell_None dims_ok_def cells_ok_def)
  then show "first_error (concat (map (\<lambda>i. map (\<lambda>j. check_cell b i j) [0..<cols b]) [0..<rows b])) = None"
    by (auto simp: first_error_None)
qed

lemma checkRep_iff: "checkRep b = None \<longleftrightarrow> dims_ok b \<and> cells_ok b \<and> pending_ok b"
proof (cases "dims_ok b")
  case False
  then show ?thesis by (auto simp: checkRep_def dims_ok_def list_all_iff)
next
  case True
  then have d: "length (grid b) = rows b" "list_all (\<lambda>rw. length rw = cols b) (grid b)"
    by (auto simp: dims_ok_def list_all_iff)
  have p: "first_error (map (check_pending b) (pending b)) = None \<longleftrightarrow> pending_ok b"
    by (auto simp: first_error_None check_pending_None pending_ok_def)
  show ?thesis
  proof (cases "first_error (concat (map (\<lambda>i. map (\<lambda>j. check_cell b i j) [0..<cols b]) [0..<rows b]))")
    case None
    with True cells_loop_None[OF True] p show ?thesis by (simp add: checkRep_def d)
  next
    case (Some e)
    with True cells_loop_None[OF True] show ?thesis by (simp add: checkRep_def d)
  qed
qed


lemma cellAt_assign:
  "cellAt (assign b q f) q' =
     (if q' = q then map_sum id (map_option f) (cellAt b q') else cellAt b q')"
proof -
  have "(Pos (pos_r q') (pos_c q') = q) = (q' = q)" by auto
  then show ?thesis
    by (simp add: getCell_assign split: sum.splits)
qed

lemma cellAt_setCell:
  "setCell b (pos_r q) (pos_c q) v = Inr b' \<Longrightarrow>
   cellAt b' q' = (if q' = q then Inr v else cellAt b q')"
  by (simp add: getCell_setCell pos.expand)

lemma cells_ok_pos: "cells_ok b \<longleftrightarrow> (\<forall>q s. cellAt b q = Inr (Some s) \<longrightarrow> slot_ok s)"
proof
  assume "cells_ok b" then show "\<forall>q s. cellAt b q = Inr (Some s) \<longrightarrow> slot_ok s"
    by (simp add: cells_ok_def)
next
  assume R: "\<forall>q s. cellAt b q = Inr (Some s) \<longrightarrow> slot_ok s"
  show "cells_ok b" unfolding cells_ok_def
  proof (intro allI impI)
    fix i j s assume "getCell b i j = Inr (Some s)"
    then have "cellAt b (Pos i j) = Inr (Some s)" by simp
    with R show "slot_ok s" by blast
  qed
qed

lemma getCell_upd [simp]:
  "getCell (b\<lparr>pending := x\<rparr>) i j = getCell b i j"
  "getCell (b\<lparr>firstSelection := y\<rparr>) i j = getCell b i j"
  by (simp_all add: getCell_def row_def)

lemma within_upd [simp]:
  "within (b\<lparr>pending := x\<rparr>) q = within b q"
  "within (b\<lparr>firstSelection := y\<rparr>) q = within b q"
  "within (assign b q' f) q = within b q"
  by (simp_all add: within_def)

lemma slotAt_upd [simp]:
  "slotAt (b\<lparr>pending := x\<rparr>) q = slotAt b q"
  "slotAt (b\<lparr>firstSelection := y\<rparr>) q = slotAt b q"
  by (simp_all add: slotAt_def)

lemma dims_ok_upd [simp]:
  "dims_ok (b\<lparr>pending := x\<rparr>) = dims_ok b"
  "dims_ok (b\<lparr>firstSelection := y\<rparr>) = dims_ok b"
  by (simp_all add: dims_ok_def)

lemma cells_ok_upd [simp]:
  "cells_ok (b\<lparr>pending := x\<rparr>) = cells_ok b"
  "cells_ok (b\<lparr>firstSelection := y\<rparr>) = cells_ok b"
  by (simp_all add: cells_ok_def)

lemma pending_ok_upd [simp]:
  "pending_ok (b\<lparr>firstSelection := y\<rparr>) = pending_ok b"
  "pending_ok (assign b q f) = pending_ok b"
  by (simp_all add: pending_ok_def)

lemma dims_ok_assign [simp]: "dims_ok (assign b q f) = dims_ok b"
proof (cases q)
  case (Pos i j)
  show ?thesis
  proof (cases "i < 0 \<or> j < 0")
    case True
    then show ?thesis unfolding Pos by (simp add: assign_neg)
  next
    case False
    then obtain n m where nm: "i = int n" "j = int m" by (metis not_less zero_le_imp_eq_int)
    show ?thesis
    proof (cases "n < length (grid b) \<and> m < length (grid b ! n)")
      case False
      then have "assign b (Pos (int n) (int m)) f = b" by (auto simp: assign_int)
      then show ?thesis unfolding Pos nm by simp
    next
      case True
      let ?rw = "(grid b ! n)[m := map_option f (grid b ! n ! m)]"
      have "map length ((grid b)[n := ?rw]) = map length (grid b)"
        using True by (simp add: map_update list_update_same_conv)
      then have "set (map length ((grid b)[n := ?rw])) = set (map length (grid b))"
        by simp
      then have "length ` set ((grid b)[n := ?rw]) = length ` set (grid b)"
        by (simp only: set_map)
      then have "(\<forall>k\<in>length ` set ((grid b)[n := ?rw]). k = cols b) =
                 (\<forall>k\<in>length ` set (grid b). k = cols b)"
        by simp
      then have "(\<forall>rw\<in>set ((grid b)[n := ?rw]). length rw = cols b) =
                 (\<forall>rw\<in>set (grid b). length rw = cols b)"
        by (simp only: ball_simps)
      then show ?thesis unfolding Pos nm assign_int using True by (simp add: dims_ok_def)
    qed
  qed
qed

lemma cells_ok_assign:
  assumes "cells_ok b" and "\<And>s. cellAt b q = Inr (Some s) \<Longrightarrow> slot_ok (f s)"
  shows "cells_ok (assign b q f)"
  unfolding cells_ok_pos
proof (intro allI impI)
  fix q' s assume g: "cellAt (assign b q f) q' = Inr (Some s)"
  show "slot_ok s"
  proof (cases "q' = q")
    case False
    with g assms(1) show ?thesis by (simp add: cellAt_assign cells_ok_pos)
  next
    case True
    with g obtain s0 where "cellAt b q = Inr (Some s0)" "s = f s0"
      by (cases "cellAt b q") (auto simp: cellAt_assign)
    with assms(2) show ?thesis by simp
  qed
qed

lemma checkRep_assign:
  assumes "checkRep b = None" and "\<And>s. cellAt b q = Inr (Some s) \<Longrightarrow> slot_ok (f s)"
  shows "checkRep (assign b q f) = None"
  using assms by (simp add: checkRep_iff cells_ok_assign)

lemma set_update_subset: "set (AList.update k v al) \<subseteq> insert (k, v) (set al)"
  by (induction al) auto

lemma pending_ok_update:
  assumes "pending_ok b"
    and "\<And>out. v = Some out \<Longrightarrow> within b (out_first out) \<and> within b (out_second out)"
  shows "pending_ok (b\<lparr>pending := AList.update p v (pending b)\<rparr>)"
  unfolding pending_ok_def
proof (intro ballI allI impI)
  fix e out
  assume e: "e \<in> set (pending (b\<lparr>pending := AList.update p v (pending b)\<rparr>))" and o: "snd e = Some out"
  from e set_update_subset[of p v "pending b"] have "e = (p, v) \<or> e \<in> set (pending b)" by auto
  then show "within (b\<lparr>pending := AList.update p v (pending b)\<rparr>) (out_first out) \<and>
             within (b\<lparr>pending := AList.update p v (pending b)\<rparr>) (out_second out)"
    using assms o by (auto simp: pending_ok_def)
qed

lemma cellAt_within:
  assumes "dims_ok b" "within b q"
  shows "\<exists>x. cellAt b q = Inr x"
  using assms by (auto simp: dims_ok_def within_def getCell_def row_def)

lemma cellAt_Some_within:
  assumes "dims_ok b" "cellAt b q = Inr (Some s)"
  shows "within b q"
proof -
  from assms(2) obtain n m where "pos_r q = int n" "pos_c q = int m" "n < length (grid b)"
    "m < length (grid b ! n)" by (rule getCell_SomeD)
  with assms(1) show ?thesis by (auto simp: dims_ok_def within_def)
qed

lemma cellAt_in_grid: "in_grid b q \<Longrightarrow> cellAt b q = Inr (grid b ! nat (pos_r q) ! nat (pos_c q))"
  by (auto simp add: in_grid_def getCell_def row_def nat_less_iff)

lemma assign_in_grid:
  "assign b q f = (if in_grid b q
     then b\<lparr>grid := (grid b)[nat (pos_r q) := (grid b ! nat (pos_r q))[nat (pos_c q) :=
            map_option f (grid b ! nat (pos_r q) ! nat (pos_c q))]]\<rparr> else b)"
  by (simp add: assign_def in_grid_def Let_def)

lemma in_grid_assign [simp]: "in_grid (assign b q f) q' = in_grid b q'"
  by (auto simp: assign_in_grid in_grid_def nth_list_update)

lemma assign_cong:
  assumes "\<And>s. cellAt b q = Inr (Some s) \<Longrightarrow> f s = g s"
  shows "assign b q f = assign b q g"
proof (cases "in_grid b q")
  case False
  then show ?thesis by (simp add: assign_in_grid)
next
  case True
  let ?x = "grid b ! nat (pos_r q) ! nat (pos_c q)"
  have "map_option f ?x = map_option g ?x"
    using assms cellAt_in_grid[OF True] by (cases ?x) auto
  then show ?thesis by (simp add: assign_in_grid)
qed

lemma assign_same:
  assumes "\<And>s. cellAt b q = Inr (Some s) \<Longrightarrow> f s = s"
  shows "assign b q f = b"
proof -
  have "assign b q f = assign b q id" using assms by (intro assign_cong) simp
  also have "\<dots> = b" by (simp add: assign_in_grid option.map_id0)
  finally show ?thesis .
qed

lemma assign_assign: "assign (assign b q f) q g = assign b q (g \<circ> f)"
proof (cases "in_grid b q")
  case False
  then show ?thesis by (simp add: assign_in_grid)
next
  case True
  then have ig: "in_grid (assign b q f) q" by simp
  from True have r: "nat (pos_r q) < length (grid b)"
    "nat (pos_c q) < length (grid b ! nat (pos_r q))" by (simp_all add: in_grid_def)
  show ?thesis
    unfolding assign_in_grid[of "assign b q f"] using ig
    by (simp add: assign_in_grid True r option.map_comp)
qed

lemma flip_down_if_free_eq:
  assumes "cellAt b q = Inr x"
  shows "flip_down_if_free b q = Inr (assign b q flip_down)"
proof (cases x)
  case None
  with assms have "assign b q flip_down = b" by (intro assign_same) simp
  with assms None show ?thesis by (simp add: flip_down_if_free_def)
next
  case (Some cell)
  show ?thesis
  proof (cases "faceUp cell \<and> controller cell = None")
    case True
    have "assign b q (\<lambda>s. s\<lparr>faceUp := False\<rparr>) = assign b q flip_down"
      using assms Some True by (intro assign_cong) (simp add: flip_down_def)
    with assms Some True show ?thesis by (simp add: flip_down_if_free_def)
  next
    case False
    have "assign b q flip_down = b"
      using assms Some False by (intro assign_same) (auto simp add: flip_down_def)
    with assms Some False show ?thesis by (auto simp add: flip_down_if_free_def)
  qed
qed

lemma setCell_within:
  assumes "dims_ok b" "within b q"
  obtains b' where "setCell b (pos_r q) (pos_c q) v = Inr b'" "dims_ok b'"
    "rows b' = rows b" "cols b' = cols b" "firstSelection b' = firstSelection b"
    "pending b' = pending b"
proof -
  let ?n = "nat (pos_r q)" and ?m = "nat (pos_c q)"
  let ?g = "(grid b)[?n := js_store (grid b ! ?n) ?m v]"
  from assms have r: "0 \<le> pos_r q" "pos_r q < int (length (grid b))" "0 \<le> pos_c q"
    "pos_c q < int (cols b)" "?n < length (grid b)"
    by (auto simp: dims_ok_def within_def)
  with assms(1) have "length (grid b ! ?n) = cols b" by (simp add: dims_ok_def)
  with r have "js_store (grid b ! ?n) ?m v = (grid b ! ?n)[?m := v]"
    by (simp add: js_store_def nat_less_iff)
  then have len: "length (js_store (grid b ! ?n) ?m v) = cols b"
    using \<open>length (grid b ! ?n) = cols b\<close> by simp
  have "\<forall>rw \<in> set ?g. length rw = cols b"
    using assms(1) len set_update_subset_insert[of "grid b" ?n "js_store (grid b ! ?n) ?m v"]
    by (auto simp: dims_ok_def)
  then have d: "dims_ok (b\<lparr>grid := ?g\<rparr>)" using assms(1) by (simp add: dims_ok_def)
  have "setCell b (pos_r q) (pos_c q) v = Inr (b\<lparr>grid := ?g\<rparr>)"
    using r by (simp add: setCell_Inr)
  with d that show thesis by simp
qed

lemma pending_get_update [simp]:
  "pending_get (b\<lparr>pending := AList.update p v (pending b)\<rparr>) p' =
     (if p' = p then v else pending_get b p')"
  by (simp add: pending_get_def update_conv')

lemma pending_get_within:
  assumes "pending_ok b" "pending_get b p = Some out"
  shows "within b (out_first out)" "within b (out_second out)"
proof -
  from assms(2) have "map_of (pending b) p = Some (Some out)"
    by (auto simp: pending_get_def split: option.splits)
  then have "(p, Some out) \<in> set (pending b)" by (rule map_of_SomeD)
  with assms(1) show "within b (out_first out)" "within b (out_second out)"
    by (auto simp: pending_ok_def)
qed

lemma slot_ok_flip_down: "slot_ok s \<Longrightarrow> slot_ok (flip_down s)"
  by (simp add: slot_ok_def flip_down_def)

lemma flip_down_idem [simp]: "flip_down (flip_down s) = flip_down s"
  by (simp add: flip_down_def)

lemma clear_pending_ok:
  assumes "checkRep b = None"
  shows "clear_pending p b = (None, b\<lparr>pending := AList.update p None (pending b)\<rparr>)"
    and "checkRep (b\<lparr>pending := AList.update p None (pending b)\<rparr>) = None"
proof -
  show "checkRep (b\<lparr>pending := AList.update p None (pending b)\<rparr>) = None"
    using assms by (auto simp: checkRep_iff intro: pending_ok_update)
  then show "clear_pending p b = (None, b\<lparr>pending := AList.update p None (pending b)\<rparr>)"
    by (simp add: clear_pending_def Let_def)
qed

lemma settle_none: "pending_get b p = None \<Longrightarrow> settleBeforeNewFirstMove p b = (None, b)"
  by (simp add: settleBeforeNewFirstMove_def)

lemma settle_matched:
  assumes "checkRep b = None" "pending_get b p = Some (Matched a a')"
  obtains b' where "settleBeforeNewFirstMove p b = (None, b')" "checkRep b' = None"
    "rows b' = rows b" "cols b' = cols b" "firstSelection b' = firstSelection b"
    "pending b' = AList.update p None (pending b)"
    "\<And>q. cellAt b' q = (if q = a \<or> q = a' then Inr None else cellAt b q)"
proof -
  from assms have ok: "dims_ok b" "cells_ok b" "pending_ok b" by (simp_all add: checkRep_iff)
  from pending_get_within[OF ok(3) assms(2)] have w: "within b a" "within b a'" by simp_all
  from ok(1) w(1) obtain b1 where b1: "setCell b (pos_r a) (pos_c a) None = Inr b1" "dims_ok b1"
    "rows b1 = rows b" "cols b1 = cols b" "firstSelection b1 = firstSelection b"
    "pending b1 = pending b" by (rule setCell_within)
  from w(2) b1 have "within b1 a'" by (simp add: within_def)
  with b1(2) obtain b2 where b2: "setCell b1 (pos_r a') (pos_c a') None = Inr b2" "dims_ok b2"
    "rows b2 = rows b1" "cols b2 = cols b1" "firstSelection b2 = firstSelection b1"
    "pending b2 = pending b1" by (rule setCell_within)
  have cell: "cellAt b2 q = (if q = a \<or> q = a' then Inr None else cellAt b q)" for q
    by (simp add: cellAt_setCell[OF b2(1)] cellAt_setCell[OF b1(1)])
  have "cells_ok b2" using ok(2) by (simp add: cells_ok_pos cell)
  moreover have "pending_ok b2" using ok(3) b1 b2 by (simp add: pending_ok_def within_def)
  ultimately have c2: "checkRep b2 = None" using b2(2) by (simp add: checkRep_iff)
  let ?b' = "b2\<lparr>pending := AList.update p None (pending b2)\<rparr>"
  have "settleBeforeNewFirstMove p b = (None, ?b')"
    using assms(2) b1(1) b2(1) clear_pending_ok(1)[OF c2]
    by (simp add: settleBeforeNewFirstMove_def)
  moreover have "checkRep ?b' = None" by (rule clear_pending_ok(2)[OF c2])
  ultimately show thesis using that[of ?b'] b1 b2 cell by simp
qed

lemma settle_mismatched:
  assumes "checkRep b = None" "pending_get b p = Some (Mismatched a a')"
  obtains b' where "settleBeforeNewFirstMove p b = (None, b')" "checkRep b' = None"
    "rows b' = rows b" "cols b' = cols b" "firstSelection b' = firstSelection b"
    "pending b' = AList.update p None (pending b)"
    "\<And>q. cellAt b' q =
       (if q = a \<or> q = a' then map_sum id (map_option flip_down) (cellAt b q) else cellAt b q)"
proof -
  from assms have ok: "dims_ok b" "cells_ok b" "pending_ok b" by (simp_all add: checkRep_iff)
  from pending_get_within[OF ok(3) assms(2)] have w: "within b a" "within b a'" by simp_all
  let ?b1 = "assign b a flip_down"
  let ?b2 = "assign ?b1 a' flip_down"
  from cellAt_within[OF ok(1) w(1)] obtain x where "cellAt b a = Inr x" ..
  then have f1: "flip_down_if_free b a = Inr ?b1" by (rule flip_down_if_free_eq)
  have c1: "checkRep ?b1 = None"
  proof (rule checkRep_assign[OF assms(1)])
    fix s assume "cellAt b a = Inr (Some s)"
    with ok(2) show "slot_ok (flip_down s)" by (auto simp: cells_ok_pos slot_ok_flip_down)
  qed
  then have ok1: "dims_ok ?b1" "cells_ok ?b1" by (simp_all add: checkRep_iff)
  from w(2) have "within ?b1 a'" by simp
  from cellAt_within[OF ok1(1) this] obtain y where "cellAt ?b1 a' = Inr y" ..
  then have f2: "flip_down_if_free ?b1 a' = Inr ?b2" by (rule flip_down_if_free_eq)
  have c2: "checkRep ?b2 = None"
  proof (rule checkRep_assign[OF c1])
    fix s assume "cellAt ?b1 a' = Inr (Some s)"
    with ok1(2) show "slot_ok (flip_down s)" by (auto simp: cells_ok_pos slot_ok_flip_down)
  qed
  have cell: "cellAt ?b2 q =
       (if q = a \<or> q = a' then map_sum id (map_option flip_down) (cellAt b q) else cellAt b q)" for q
    by (cases "cellAt b q") (auto simp: cellAt_assign option.map_comp comp_def)
  let ?b' = "?b2\<lparr>pending := AList.update p None (pending ?b2)\<rparr>"
  have "settleBeforeNewFirstMove p b = (None, ?b')"
    using assms(2) f1 f2 clear_pending_ok(1)[OF c2]
    by (simp add: settleBeforeNewFirstMove_def)
  moreover have "checkRep ?b' = None" by (rule clear_pending_ok(2)[OF c2])
  ultimately show thesis using that[of ?b'] cell by simp
qed

section \<open>Settling the previous turn\<close>

text \<open>
  Claim C1. On a board that satisfies the representation invariant,
  \<open>settleBeforeNewFirstMove(p)\<close> does nothing when \<open>p\<close> has no pending outcome; for a pending
  \<open>Matched(a, a')\<close> it empties both cells whatever their controller and leaves every other
  cell as it was; for a pending \<open>Mismatched(a, a')\<close> it turns each of the two cells face-down
  exactly when the cell now holds a face-up, uncontrolled slot, and leaves every other cell
  as it was; in both cases it returns normally and \<open>pending.get(p)\<close> is \<open>null\<close> afterwards.
\<close>

theorem settleBeforeNewFirstMove_spec:
  assumes "checkRep b = None"
  shows "(pending_get b p = None \<longrightarrow> settleBeforeNewFirstMove p b = (None, b)) \<and>
    (\<forall>a a'. pending_get b p = Some (Matched a a') \<longrightarrow>
       fst (settleBeforeNewFirstMove p b) = None \<and>
       (\<forall>q. cellAt (snd (settleBeforeNewFirstMove p b)) q =
              (if q = a \<or> q = a' then Inr None else cellAt b q)) \<and>
       pending_get (snd (settleBeforeNewFirstMove p b)) p = None) \<and>
    (\<forall>a a'. pending_get b p = Some (Mismatched a a') \<longrightarrow>
       fst (settleBeforeNewFirstMove p b) = None \<and>
       (\<forall>q. cellAt (snd (settleBeforeNewFirstMove p b)) q =
              (if q = a \<or> q = a'
               then (case cellAt b q of
                       Inr (Some s) \<Rightarrow>
                         Inr (Some (if faceUp s \<and> controller s = None
                                    then s\<lparr>faceUp := False\<rparr> else s))
                     | x \<Rightarrow> x)
               else cellAt b q)) \<and>
       pending_get (snd (settleBeforeNewFirstMove p b)) p = None)"
proof (intro conjI allI impI)
  assume "pending_get b p = None"
  then show "settleBeforeNewFirstMove p b = (None, b)" by (rule settle_none)
next
  fix a a' assume m: "pending_get b p = Some (Matched a a')"
  from assms m obtain b' where b': "settleBeforeNewFirstMove p b = (None, b')"
    "pending b' = AList.update p None (pending b)"
    "\<And>q. cellAt b' q = (if q = a \<or> q = a' then Inr None else cellAt b q)"
    by (rule settle_matched) blast
  show "fst (settleBeforeNewFirstMove p b) = None" by (simp add: b'(1))
  show "pending_get (snd (settleBeforeNewFirstMove p b)) p = None"
    by (simp add: b'(1) pending_get_def b'(2) update_conv')
  fix q
  show "cellAt (snd (settleBeforeNewFirstMove p b)) q =
          (if q = a \<or> q = a' then Inr None else cellAt b q)"
    by (simp add: b'(1) b'(3))
next
  fix a a' assume m: "pending_get b p = Some (Mismatched a a')"
  from assms m obtain b' where b': "settleBeforeNewFirstMove p b = (None, b')"
    "pending b' = AList.update p None (pending b)"
    "\<And>q. cellAt b' q =
       (if q = a \<or> q = a' then map_sum id (map_option flip_down) (cellAt b q) else cellAt b q)"
    by (rule settle_mismatched) blast
  show "fst (settleBeforeNewFirstMove p b) = None" by (simp add: b'(1))
  show "pending_get (snd (settleBeforeNewFirstMove p b)) p = None"
    by (simp add: b'(1) pending_get_def b'(2) update_conv')
  fix q
  have "map_sum id (map_option flip_down) (cellAt b q) =
        (case cellAt b q of
           Inr (Some s) \<Rightarrow>
             Inr (Some (if faceUp s \<and> controller s = None then s\<lparr>faceUp := False\<rparr> else s))
         | x \<Rightarrow> x)"
    by (simp add: flip_down_def split: sum.splits option.splits)
  then show "cellAt (snd (settleBeforeNewFirstMove p b)) q =
          (if q = a \<or> q = a'
           then (case cellAt b q of
                   Inr (Some s) \<Rightarrow>
                     Inr (Some (if faceUp s \<and> controller s = None
                                then s\<lparr>faceUp := False\<rparr> else s))
                 | x \<Rightarrow> x)
           else cellAt b q)"
    by (simp add: b'(1) b'(3))
qed

text \<open>Unfolding the definitions evaluates the operations on concrete boards.\<close>

lemmas eval_defs = checkRep_def check_cell_def check_pending_def getCell_def row_def within_def
  cardRe_def is_space_def pending_get_def slotAt_def upt_rec
  card_A_def card_B_def alice_def bob_def

theorem settleBeforeNewFirstMove_spec_witness:
  "checkRep board_matched = None \<and>
   pending_get board_matched alice = Some (Matched (Pos 0 0) (Pos 0 1)) \<and>
   fst (settleBeforeNewFirstMove alice board_matched) = None \<and>
   cellAt (snd (settleBeforeNewFirstMove alice board_matched)) (Pos 0 0) = Inr None \<and>
   cellAt (snd (settleBeforeNewFirstMove alice board_matched)) (Pos 0 1) = Inr None \<and>
   cellAt (snd (settleBeforeNewFirstMove alice board_matched)) (Pos 1 0) =
     cellAt board_matched (Pos 1 0) \<and>
   pending_get (snd (settleBeforeNewFirstMove alice board_matched)) alice = None"
proof -
  have h: "checkRep board_matched = None"
    by (simp add: board_matched_def eval_defs)
  have m: "pending_get board_matched alice = Some (Matched (Pos 0 0) (Pos 0 1))"
    by (simp add: board_matched_def eval_defs)
  from settleBeforeNewFirstMove_spec[OF h, of alice] m
  have "fst (settleBeforeNewFirstMove alice board_matched) = None \<and>
       (\<forall>q. cellAt (snd (settleBeforeNewFirstMove alice board_matched)) q =
              (if q = Pos 0 0 \<or> q = Pos 0 1 then Inr None else cellAt board_matched q)) \<and>
       pending_get (snd (settleBeforeNewFirstMove alice board_matched)) alice = None"
    by blast
  then have r: "fst (settleBeforeNewFirstMove alice board_matched) = None"
    "pending_get (snd (settleBeforeNewFirstMove alice board_matched)) alice = None"
    and c: "\<And>q. cellAt (snd (settleBeforeNewFirstMove alice board_matched)) q =
              (if q = Pos 0 0 \<or> q = Pos 0 1 then Inr None else cellAt board_matched q)"
    by blast+
  from c[of "Pos 0 0"] c[of "Pos 0 1"] c[of "Pos 1 0"] r h m show ?thesis by simp
qed

section \<open>First flips\<close>

lemma settle_ok:
  assumes "checkRep b = None"
  obtains b1 where "settleBeforeNewFirstMove p b = (None, b1)" "checkRep b1 = None"
    "rows b1 = rows b" "cols b1 = cols b" "firstSelection b1 = firstSelection b"
    "pending_get b1 p = None" "pending_get b p = None \<Longrightarrow> b1 = b"
    "\<And>p'. p' \<noteq> p \<Longrightarrow> pending_get b1 p' = pending_get b p'"
    "\<And>q. cellAt b q = Inr None \<Longrightarrow> cellAt b1 q = Inr None"
proof (cases "pending_get b p")
  case None
  with assms that[of b] show thesis by (simp add: settle_none)
next
  case (Some out)
  show thesis
  proof (cases out)
    case (Matched a a')
    with Some assms obtain b' where b': "settleBeforeNewFirstMove p b = (None, b')"
      "checkRep b' = None" "rows b' = rows b" "cols b' = cols b"
      "firstSelection b' = firstSelection b" "pending b' = AList.update p None (pending b)"
      "\<And>q. cellAt b q = Inr None \<Longrightarrow> cellAt b' q = Inr None"
      by (auto elim: settle_matched)
    from b'(6) have "pending_get b' p' = (if p' = p then None else pending_get b p')" for p'
      by (simp add: pending_get_def update_conv')
    with b' Some that[of b'] show thesis by simp
  next
    case (Mismatched a a')
    with Some assms obtain b' where b': "settleBeforeNewFirstMove p b = (None, b')"
      "checkRep b' = None" "rows b' = rows b" "cols b' = cols b"
      "firstSelection b' = firstSelection b" "pending b' = AList.update p None (pending b)"
      "\<And>q. cellAt b q = Inr None \<Longrightarrow> cellAt b' q = Inr None"
      by (auto elim: settle_mismatched)
    from b'(6) have "pending_get b' p' = (if p' = p then None else pending_get b p')" for p'
      by (simp add: pending_get_def update_conv')
    with b' Some that[of b'] show thesis by simp
  qed
qed

lemma checkRep_firstSelection [simp]:
  "checkRep (b\<lparr>firstSelection := y\<rparr>) = None \<longleftrightarrow> checkRep b = None"
  by (simp add: checkRep_iff)

lemma record_first_ok:
  "checkRep b = None \<Longrightarrow>
   record_first p q b = (None, b\<lparr>firstSelection := AList.update p q (firstSelection b)\<rparr>)"
  by (simp add: record_first_def Let_def)

lemma slotAt_Some_cellAt: "slotAt b q = Inr x \<Longrightarrow> cellAt b q = Inr x"
  by (simp add: slotAt_def split: if_splits)

lemma slotAt_within: "slotAt b q = Inr x \<Longrightarrow> within b q"
  by (simp add: slotAt_def split: if_splits)

lemma slot_ok_take_first: "slot_ok s \<Longrightarrow> slot_ok (take_first p s)"
  by (simp add: slot_ok_def take_first_def)

lemma flipFirst_take:
  assumes "settleBeforeNewFirstMove p b = (None, b1)" "slotAt b1 q = Inr (Some s)"
    and "\<not> (faceUp s \<and> controller s \<noteq> None \<and> controller s \<noteq> Some p)"
  shows "flipFirst q p b = record_first p q (assign b1 q (take_first p))"
proof -
  from assms(2) have c: "cellAt b1 q = Inr (Some s)" by (rule slotAt_Some_cellAt)
  show ?thesis
  proof (cases "faceUp s")
    case False
    have "assign (assign b1 q (\<lambda>s. s\<lparr>faceUp := True\<rparr>)) q (\<lambda>s. s\<lparr>controller := Some p\<rparr>)
          = assign b1 q (take_first p)"
      by (simp add: assign_assign comp_def take_first_def[abs_def])
    with assms False show ?thesis by (simp add: flipFirst_def)
  next
    case True
    show ?thesis
    proof (cases "controller s = None")
      case None: True
      have "assign b1 q (\<lambda>s. s\<lparr>controller := Some p\<rparr>) = assign b1 q (take_first p)"
        using c \<open>faceUp s\<close> by (intro assign_cong) (simp add: take_first_def)
      with assms True None show ?thesis by (simp add: flipFirst_def)
    next
      case False
      with assms(3) True have own: "controller s = Some p" by simp
      have "assign b1 q (take_first p) = b1"
        using c True own by (intro assign_same) (simp add: take_first_def)
      with assms True own show ?thesis by (simp add: flipFirst_def)
    qed
  qed
qed

lemma flipFirst_success:
  assumes "checkRep b = None" "settleBeforeNewFirstMove p b = (e1, b1)"
    "slotAt b1 q = Inr (Some s)"
    "\<not> (faceUp s \<and> controller s \<noteq> None \<and> controller s \<noteq> Some p)"
  shows "flipFirst q p b =
     (None, (assign b1 q (take_first p))\<lparr>firstSelection := AList.update p q (firstSelection b1)\<rparr>)"
    and "checkRep (assign b1 q (take_first p)) = None"
proof -
  from assms(1) obtain b1' where s: "settleBeforeNewFirstMove p b = (None, b1')"
    "checkRep b1' = None" by (rule settle_ok)
  with assms(2) have e: "e1 = None" "b1' = b1" by simp_all
  from s e have c1: "checkRep b1 = None" by simp
  then have "cells_ok b1" by (simp add: checkRep_iff)
  show c2: "checkRep (assign b1 q (take_first p)) = None"
  proof (rule checkRep_assign[OF c1])
    fix s' assume "cellAt b1 q = Inr (Some s')"
    with \<open>cells_ok b1\<close> show "slot_ok (take_first p s')"
      by (auto simp: cells_ok_pos slot_ok_take_first)
  qed
  from s e assms(3,4) have "flipFirst q p b = record_first p q (assign b1 q (take_first p))"
    by (intro flipFirst_take) simp_all
  with record_first_ok[OF c2, of p q]
  show "flipFirst q p b =
     (None, (assign b1 q (take_first p))\<lparr>firstSelection := AList.update p q (firstSelection b1)\<rparr>)"
    by simp
qed


lemmas op_defs = settleBeforeNewFirstMove_def clear_pending_def flipFirst_def record_first_def
  setCell_def js_store_def assign_def flip_down_if_free_def flipSecond_def relinquishFirstOnly_def
  relinquish_then_throw_def resolve_def Let_def

text \<open>The concrete boards arise from the constructor by calls of the operations.\<close>

lemma construct_board_fresh: "construct 2 2 [card_A, card_A, card_B, card_B] = Inr board_fresh"
  by (simp add: construct_def initial_grid_def board_fresh_def upt_rec eval_defs)

lemma reachable_board_fresh: "reachable board_fresh"
  using construct_board_fresh by (rule reach_construct)


lemma reachable_board_gap: "reachable board_gap"
proof -
  let ?b1 = "snd (flipFirst (Pos 1 0) bob board_fresh)"
  let ?b2 = "snd (flipSecond (Pos 1 1) bob ?b1)"
  let ?b3 = "snd (flipFirst (Pos 5 5) bob ?b2)"
  let ?b4 = "snd (flipFirst (Pos 0 0) alice ?b3)"
  let ?b5 = "snd (flipSecond (Pos 0 1) alice ?b4)"
  have "reachable ?b5"
    by (intro reach_flipSecond reach_flipFirst reachable_board_fresh)
  moreover have "?b5 = board_gap"
    by (simp add: board_fresh_def board_gap_def op_defs eval_defs)
  ultimately show ?thesis by simp
qed

lemma reachable_board_matched: "reachable board_matched"
proof -
  let ?b1 = "snd (flipFirst (Pos 0 0) alice board_fresh)"
  let ?b2 = "snd (flipSecond (Pos 0 1) alice ?b1)"
  have "reachable ?b2"
    by (intro reach_flipSecond reach_flipFirst reachable_board_fresh)
  moreover have "?b2 = board_matched"
    by (simp add: board_fresh_def board_matched_def op_defs eval_defs)
  ultimately show ?thesis by simp
qed

text \<open>
  Claim C6. On a board that satisfies the representation invariant, let \<open>b1\<close> be the board
  after the settlement that opens \<open>flipFirst(q, p)\<close>. When the slot at \<open>q\<close> is non-empty and
  not controlled by a player other than \<open>p\<close>, the call returns normally; a face-down slot
  becomes face-up with controller \<open>p\<close>, a face-up uncontrolled slot gets controller \<open>p\<close>, a
  slot already controlled by \<open>p\<close> is left as it is; no other cell changes; and
  \<open>firstSelection.get(p)\<close> is \<open>q\<close>, the other players' selections and \<open>pending\<close> being
  untouched.
\<close>

theorem flipFirst_takes_slot:
  assumes "checkRep b = None"
    and "settleBeforeNewFirstMove p b = (e1, b1)"
    and "slotAt b1 q = Inr (Some s)"
    and "\<not> (faceUp s \<and> controller s \<noteq> None \<and> controller s \<noteq> Some p)"
    and "flipFirst q p b = (e2, b2)"
  shows "e2 = None \<and>
    cellAt b2 q =
      Inr (Some (if \<not> faceUp s then s\<lparr>faceUp := True, controller := Some p\<rparr>
                 else if controller s = None then s\<lparr>controller := Some p\<rparr>
                 else s)) \<and>
    (\<forall>q'. q' \<noteq> q \<longrightarrow> cellAt b2 q' = cellAt b1 q') \<and>
    map_of (firstSelection b2) p = Some q \<and>
    (\<forall>p'. p' \<noteq> p \<longrightarrow> map_of (firstSelection b2) p' = map_of (firstSelection b) p') \<and>
    pending b2 = pending b1"
proof -
  from assms(1) obtain b1' where s: "settleBeforeNewFirstMove p b = (None, b1')"
    "firstSelection b1' = firstSelection b" by (rule settle_ok)
  with assms(2) have fs: "firstSelection b1 = firstSelection b" by simp
  let ?b2 = "(assign b1 q (take_first p))\<lparr>firstSelection := AList.update p q (firstSelection b1)\<rparr>"
  from flipFirst_success(1)[OF assms(1-4)] assms(5) have e: "e2 = None" "b2 = ?b2" by simp_all
  from assms(3) have c: "cellAt b1 q = Inr (Some s)" by (rule slotAt_Some_cellAt)
  have new: "take_first p s =
      (if \<not> faceUp s then s\<lparr>faceUp := True, controller := Some p\<rparr>
       else if controller s = None then s\<lparr>controller := Some p\<rparr> else s)"
    using assms(4) by (auto simp: take_first_def)
  have "cellAt b2 q = Inr (Some (take_first p s))"
    by (simp add: e cellAt_assign c)
  moreover have "\<forall>q'. q' \<noteq> q \<longrightarrow> cellAt b2 q' = cellAt b1 q'"
    by (simp add: e cellAt_assign)
  moreover have "map_of (firstSelection b2) p = Some q"
    by (simp add: e update_conv')
  moreover have "\<forall>p'. p' \<noteq> p \<longrightarrow> map_of (firstSelection b2) p' = map_of (firstSelection b) p'"
    by (simp add: e update_conv' fs)
  moreover have "pending b2 = pending b1" by (simp add: e)
  ultimately show ?thesis using e(1) new by simp
qed

theorem flipFirst_takes_slot_witness:
  "checkRep board_fresh = None \<and>
   settleBeforeNewFirstMove alice board_fresh = (None, board_fresh) \<and>
   slotAt board_fresh (Pos 0 0) = Inr (Some \<lparr>label = card_A, faceUp = False, controller = None\<rparr>) \<and>
   fst (flipFirst (Pos 0 0) alice board_fresh) = None \<and>
   cellAt (snd (flipFirst (Pos 0 0) alice board_fresh)) (Pos 0 0) =
     Inr (Some \<lparr>label = card_A, faceUp = True, controller = Some alice\<rparr>) \<and>
   map_of (firstSelection (snd (flipFirst (Pos 0 0) alice board_fresh))) alice = Some (Pos 0 0)"
proof -
  let ?s = "\<lparr>label = card_A, faceUp = False, controller = None\<rparr>"
  have h1: "checkRep board_fresh = None" by (simp add: board_fresh_def eval_defs)
  have h2: "settleBeforeNewFirstMove alice board_fresh = (None, board_fresh)"
    by (simp add: board_fresh_def op_defs eval_defs)
  have h3: "slotAt board_fresh (Pos 0 0) = Inr (Some ?s)"
    by (simp add: board_fresh_def eval_defs)
  have h4: "\<not> (faceUp ?s \<and> controller ?s \<noteq> None \<and> controller ?s \<noteq> Some alice)" by simp
  have h5: "flipFirst (Pos 0 0) alice board_fresh =
     (fst (flipFirst (Pos 0 0) alice board_fresh), snd (flipFirst (Pos 0 0) alice board_fresh))"
    by simp
  from flipFirst_takes_slot[OF h1 h2 h3 h4 h5] h1 h2 h3 show ?thesis by simp
qed

text \<open>
  Claim C7, as amended. On a board that satisfies the representation invariant, a call
  \<open>flipFirst(q, p)\<close> whose position is out of bounds or whose cell is empty throws
  ("Out of bounds" for a position outside the grid, "1-A: empty space" for an empty cell) and
  leaves \<open>firstSelection\<close> unchanged. The board it leaves behind is the one produced by
  settling \<open>p\<close>'s pending outcome, which precedes the check; it is the board before the call
  when \<open>p\<close> has no pending outcome.
\<close>

theorem flipFirst_empty_fails:
  assumes "checkRep b = None"
    and "settleBeforeNewFirstMove p b = (e1, b1)"
    and "\<not> within b q \<or> slotAt b q = Inr None"
  shows "flipFirst q p b = (Some (if within b q then EmptySpace_1A else OutOfBounds q), b1) \<and>
    firstSelection b1 = firstSelection b \<and>
    (pending_get b p = None \<longrightarrow> b1 = b)"
proof -
  from assms(1) obtain b1' where s: "settleBeforeNewFirstMove p b = (None, b1')"
    "rows b1' = rows b" "cols b1' = cols b" "firstSelection b1' = firstSelection b"
    "pending_get b p = None \<Longrightarrow> b1' = b"
    "\<And>q. cellAt b q = Inr None \<Longrightarrow> cellAt b1' q = Inr None"
  proof (rule settle_ok[where p = p])
    fix b1'
    assume "settleBeforeNewFirstMove p b = (None, b1')" "rows b1' = rows b" "cols b1' = cols b"
      "firstSelection b1' = firstSelection b" "pending_get b p = None \<Longrightarrow> b1' = b"
      "\<And>q. cellAt b q = Inr None \<Longrightarrow> cellAt b1' q = Inr None"
    then show thesis by (rule that)
  qed
  with assms(2) have e: "e1 = None" "b1' = b1" by simp_all
  from s e have w: "within b1 q = within b q" by (simp add: within_def)
  have "flipFirst q p b = (Some (if within b q then EmptySpace_1A else OutOfBounds q), b1)"
  proof (cases "within b q")
    case False
    with w have "slotAt b1 q = Inl (OutOfBounds q)" by (simp add: slotAt_def)
    with s(1) e False show ?thesis by (simp add: flipFirst_def)
  next
    case True
    with assms(3) have "cellAt b q = Inr None" by (simp add: slotAt_def)
    then have "cellAt b1 q = Inr None" using s(6) e by simp
    with True w have "slotAt b1 q = Inr None" by (simp add: slotAt_def)
    with s(1) e True show ?thesis by (simp add: flipFirst_def)
  qed
  with s e show ?thesis by simp
qed

theorem flipFirst_empty_fails_witness:
  "checkRep board_gap = None \<and> slotAt board_gap (Pos 1 0) = Inr None \<and>
   fst (flipFirst (Pos 1 0) alice board_gap) = Some EmptySpace_1A \<and>
   snd (flipFirst (Pos 1 0) alice board_gap) = snd (settleBeforeNewFirstMove alice board_gap) \<and>
   firstSelection (snd (flipFirst (Pos 1 0) alice board_gap)) = firstSelection board_gap"
proof -
  have h1: "checkRep board_gap = None" by (simp add: board_gap_def eval_defs)
  have h2: "settleBeforeNewFirstMove alice board_gap =
     (fst (settleBeforeNewFirstMove alice board_gap), snd (settleBeforeNewFirstMove alice board_gap))"
    by simp
  have h3: "slotAt board_gap (Pos 1 0) = Inr None" by (simp add: board_gap_def eval_defs)
  have w: "within board_gap (Pos 1 0)" by (simp add: board_gap_def eval_defs)
  from flipFirst_empty_fails[OF h1 h2 disjI2, OF h3] w h1 h3 show ?thesis by simp
qed

text \<open>The claim C7 as stated fails: on \<open>board_gap\<close> the cell (1,0) is empty, and the call
  \<open>flipFirst((1,0), alice)\<close> throws "1-A: empty space" after having removed alice's matched
  pair and cleared her pending outcome.\<close>

theorem flipFirst_empty_counterexample:
  "reachable board_gap \<and>
   slotAt board_gap (Pos 1 0) = Inr None \<and>
   fst (flipFirst (Pos 1 0) alice board_gap) = Some EmptySpace_1A \<and>
   snd (flipFirst (Pos 1 0) alice board_gap) \<noteq> board_gap \<and>
   cellAt board_gap (Pos 0 0) =
     Inr (Some \<lparr>label = card_A, faceUp = True, controller = Some alice\<rparr>) \<and>
   cellAt (snd (flipFirst (Pos 1 0) alice board_gap)) (Pos 0 0) = Inr None"
  using reachable_board_gap by (simp add: board_gap_def op_defs eval_defs)

text \<open>
  Claim C10. On a board that satisfies the representation invariant, a player whose pending
  outcome is \<open>Matched(a, a')\<close> cannot select either card of that pair again: \<open>flipFirst\<close> on
  \<open>a\<close> or on \<open>a'\<close> throws "1-A: empty space", the settlement having removed both slots
  before the check.
\<close>

theorem flipFirst_own_matched_pair_fails:
  assumes "checkRep b = None" and "pending_get b p = Some (Matched a a')"
  shows "fst (flipFirst a p b) = Some EmptySpace_1A \<and> fst (flipFirst a' p b) = Some EmptySpace_1A"
proof -
  from assms have "pending_ok b" by (simp add: checkRep_iff)
  from pending_get_within[OF this assms(2)] have w: "within b a" "within b a'" by simp_all
  from assms obtain b' where b': "settleBeforeNewFirstMove p b = (None, b')"
    "rows b' = rows b" "cols b' = cols b"
    "\<And>q. cellAt b' q = (if q = a \<or> q = a' then Inr None else cellAt b q)"
    by (rule settle_matched) blast
  from w b'(2,3) have "within b' a" "within b' a'" by (simp_all add: within_def)
  with b'(4) have "slotAt b' a = Inr None" "slotAt b' a' = Inr None" by (simp_all add: slotAt_def)
  with b'(1) show ?thesis by (simp add: flipFirst_def)
qed

theorem flipFirst_own_matched_pair_fails_witness:
  "checkRep board_matched = None \<and>
   pending_get board_matched alice = Some (Matched (Pos 0 0) (Pos 0 1)) \<and>
   fst (flipFirst (Pos 0 0) alice board_matched) = Some EmptySpace_1A \<and>
   fst (flipFirst (Pos 0 1) alice board_matched) = Some EmptySpace_1A"
proof -
  have h: "checkRep board_matched = None" by (simp add: board_matched_def eval_defs)
  have m: "pending_get board_matched alice = Some (Matched (Pos 0 0) (Pos 0 1))"
    by (simp add: board_matched_def eval_defs)
  from flipFirst_own_matched_pair_fails[OF h m] h m show ?thesis by simp
qed




section \<open>Second flips\<close>

lemma slot_ok_set_controller_None: "slot_ok s \<Longrightarrow> slot_ok (set_controller None s)"
  by (simp add: slot_ok_def set_controller_def)

lemma slot_ok_set_controller_up: "slot_ok s \<Longrightarrow> faceUp s \<Longrightarrow> slot_ok (set_controller v s)"
  by (simp add: slot_ok_def set_controller_def)

lemma slot_ok_turn_up: "slot_ok s \<Longrightarrow> slot_ok (turn_up s)"
  by (simp add: slot_ok_def turn_up_def)

lemma relinquish_effect:
  assumes "checkRep b = None" "map_of (firstSelection b) p = Some f" "slotAt b f = Inr x"
  shows "relinquishFirstOnly p b =
    (None, (assign b f (set_controller None))\<lparr>firstSelection := AList.delete p (firstSelection b)\<rparr>)"
proof -
  from assms(3) have c: "cellAt b f = Inr x" by (rule slotAt_Some_cellAt)
  from assms(1) have "cells_ok b" by (simp add: checkRep_iff)
  have ck: "checkRep (assign b f (set_controller None)) = None"
  proof (rule checkRep_assign[OF assms(1)])
    fix s assume "cellAt b f = Inr (Some s)"
    with \<open>cells_ok b\<close> show "slot_ok (set_controller None s)"
      by (auto simp: cells_ok_pos slot_ok_set_controller_None)
  qed
  show ?thesis
  proof (cases x)
    case None
    with c have "assign b f (set_controller None) = b" by (intro assign_same) simp
    with assms(2,3) ck None show ?thesis by (simp add: relinquishFirstOnly_def Let_def)
  next
    case (Some s)
    have "assign b f (\<lambda>s. s\<lparr>controller := None\<rparr>) = assign b f (set_controller None)"
      by (simp add: set_controller_def[abs_def])
    with assms(2,3) ck Some show ?thesis by (simp add: relinquishFirstOnly_def Let_def)
  qed
qed


lemma flipSecond_fail_effect:
  assumes "checkRep b = None" "map_of (firstSelection b) p = Some f" "slotAt b f = Inr x"
  shows "\<not> within b q \<or> cellAt b q = Inr None \<Longrightarrow>
     flipSecond q p b = (Some EmptySpace_2A,
       (assign b f (set_controller None))\<lparr>firstSelection := AList.delete p (firstSelection b)\<rparr>)"
    and "within b q \<Longrightarrow> cellAt b q = Inr (Some s2) \<Longrightarrow> faceUp s2 \<Longrightarrow> controller s2 \<noteq> None \<Longrightarrow>
     flipSecond q p b = (Some Controlled_2B,
       (assign b f (set_controller None))\<lparr>firstSelection := AList.delete p (firstSelection b)\<rparr>)"
proof -
  note r = relinquish_effect[OF assms]
  show "flipSecond q p b = (Some EmptySpace_2A,
       (assign b f (set_controller None))\<lparr>firstSelection := AList.delete p (firstSelection b)\<rparr>)"
    if "\<not> within b q \<or> cellAt b q = Inr None"
    using that assms(2) r by (auto simp: flipSecond_def relinquish_then_throw_def)
  show "flipSecond q p b = (Some Controlled_2B,
       (assign b f (set_controller None))\<lparr>firstSelection := AList.delete p (firstSelection b)\<rparr>)"
    if "within b q" "cellAt b q = Inr (Some s2)" "faceUp s2" "controller s2 \<noteq> None"
    using that assms(2) r by (auto simp: flipSecond_def relinquish_then_throw_def)
qed

text \<open>
  Claim C5. On a board that satisfies the representation invariant, let \<open>p\<close> hold a first
  selection \<open>f\<close> whose slot is \<open>s1\<close>. A second flip at a position that is out of bounds or
  empty throws "2-A: second position is empty"; a second flip at a face-up slot controlled by
  anyone (\<open>p\<close> included) throws "2-B: second card is controlled". In both cases the call
  returns at once with the first slot released (controller \<open>null\<close>, orientation unchanged),
  every other cell and \<open>pending\<close> as before, and \<open>firstSelection\<close> without an entry for \<open>p\<close>.
\<close>

theorem flipSecond_fails_releases_first:
  assumes "checkRep b = None"
    and "map_of (firstSelection b) p = Some f"
    and "slotAt b f = Inr (Some s1)"
    and "flipSecond q p b = (e, b')"
  shows "((\<not> within b q \<or> slotAt b q = Inr None) \<longrightarrow> e = Some EmptySpace_2A) \<and>
    ((\<exists>s2. slotAt b q = Inr (Some s2) \<and> faceUp s2 \<and> controller s2 \<noteq> None) \<longrightarrow>
       e = Some Controlled_2B) \<and>
    ((\<not> within b q \<or> slotAt b q = Inr None \<or>
      (\<exists>s2. slotAt b q = Inr (Some s2) \<and> faceUp s2 \<and> controller s2 \<noteq> None)) \<longrightarrow>
       cellAt b' f = Inr (Some (s1\<lparr>controller := None\<rparr>)) \<and>
       (\<forall>q'. q' \<noteq> f \<longrightarrow> cellAt b' q' = cellAt b q') \<and>
       map_of (firstSelection b') p = None \<and>
       (\<forall>p'. p' \<noteq> p \<longrightarrow> map_of (firstSelection b') p' = map_of (firstSelection b) p') \<and>
       pending b' = pending b)"
proof -
  let ?b' = "(assign b f (set_controller None))\<lparr>firstSelection := AList.delete p (firstSelection b)\<rparr>"
  from assms(3) have c: "cellAt b f = Inr (Some s1)" by (rule slotAt_Some_cellAt)
  have eff: "cellAt ?b' f = Inr (Some (s1\<lparr>controller := None\<rparr>)) \<and>
       (\<forall>q'. q' \<noteq> f \<longrightarrow> cellAt ?b' q' = cellAt b q') \<and>
       map_of (firstSelection ?b') p = None \<and>
       (\<forall>p'. p' \<noteq> p \<longrightarrow> map_of (firstSelection ?b') p' = map_of (firstSelection b) p') \<and>
       pending ?b' = pending b"
    by (simp add: cellAt_assign c set_controller_def delete_conv')
  have A: "e = Some EmptySpace_2A \<and> b' = ?b'" if "\<not> within b q \<or> slotAt b q = Inr None"
  proof -
    from that have "\<not> within b q \<or> cellAt b q = Inr None" by (auto simp: slotAt_def)
    from flipSecond_fail_effect(1)[OF assms(1-3) this] assms(4) show ?thesis by simp
  qed
  have B: "e = Some Controlled_2B \<and> b' = ?b'"
    if "slotAt b q = Inr (Some s2) \<and> faceUp s2 \<and> controller s2 \<noteq> None" for s2
  proof -
    from that have "within b q" "cellAt b q = Inr (Some s2)" "faceUp s2" "controller s2 \<noteq> None"
      by (auto simp: slotAt_def split: if_splits)
    from flipSecond_fail_effect(2)[OF assms(1-3) this] assms(4) show ?thesis by simp
  qed
  have P1: "(\<not> within b q \<or> slotAt b q = Inr None) \<longrightarrow> e = Some EmptySpace_2A"
    using A by simp
  have P2: "(\<exists>s2. slotAt b q = Inr (Some s2) \<and> faceUp s2 \<and> controller s2 \<noteq> None) \<longrightarrow>
       e = Some Controlled_2B"
    using B by blast
  have P3: "(\<not> within b q \<or> slotAt b q = Inr None \<or>
      (\<exists>s2. slotAt b q = Inr (Some s2) \<and> faceUp s2 \<and> controller s2 \<noteq> None)) \<longrightarrow>
       cellAt b' f = Inr (Some (s1\<lparr>controller := None\<rparr>)) \<and>
       (\<forall>q'. q' \<noteq> f \<longrightarrow> cellAt b' q' = cellAt b q') \<and>
       map_of (firstSelection b') p = None \<and>
       (\<forall>p'. p' \<noteq> p \<longrightarrow> map_of (firstSelection b') p' = map_of (firstSelection b) p') \<and>
       pending b' = pending b"
  proof
    assume "\<not> within b q \<or> slotAt b q = Inr None \<or>
      (\<exists>s2. slotAt b q = Inr (Some s2) \<and> faceUp s2 \<and> controller s2 \<noteq> None)"
    then have "b' = ?b'" using A B by blast
    with eff show "cellAt b' f = Inr (Some (s1\<lparr>controller := None\<rparr>)) \<and>
       (\<forall>q'. q' \<noteq> f \<longrightarrow> cellAt b' q' = cellAt b q') \<and>
       map_of (firstSelection b') p = None \<and>
       (\<forall>p'. p' \<noteq> p \<longrightarrow> map_of (firstSelection b') p' = map_of (firstSelection b) p') \<and>
       pending b' = pending b" by simp
  qed
  show ?thesis by (rule conjI[OF P1 conjI[OF P2 P3]])
qed


lemma checkRep_pending_update:
  assumes "checkRep b = None"
    and "\<And>out. v = Some out \<Longrightarrow> within b (out_first out) \<and> within b (out_second out)"
  shows "checkRep (b\<lparr>pending := AList.update p v (pending b)\<rparr>) = None"
  using assms by (auto simp: checkRep_iff intro: pending_ok_update)

lemma resolve_returns_checked:
  "resolve f q p s1 s2 b = (None, b') \<Longrightarrow> checkRep b' = None"
  by (auto simp: resolve_def Let_def split: if_splits)

lemma flipSecond_success:
  assumes "checkRep b = None" "map_of (firstSelection b) p = Some f"
    and "slotAt b f = Inr (Some s1)" "faceUp s1"
    and "slotAt b q = Inr (Some s2)" "\<not> (faceUp s2 \<and> controller s2 \<noteq> None)"
    and v: "v = (if label s1 = label s2 then Some p else None)"
    and out: "out = (if label s1 = label s2 then Matched f q else Mismatched f q)"
  shows "flipSecond q p b =
    (None, (assign (assign (assign b q turn_up) f (set_controller v)) q (set_controller v))
             \<lparr>pending := AList.update p (Some out) (pending b),
              firstSelection := AList.delete p (firstSelection b)\<rparr>)"
    and "checkRep ((assign (assign (assign b q turn_up) f (set_controller v)) q (set_controller v))
             \<lparr>pending := AList.update p (Some out) (pending b),
              firstSelection := AList.delete p (firstSelection b)\<rparr>) = None"
proof -
  let ?b1 = "assign b q turn_up"
  let ?b2 = "assign ?b1 f (set_controller v)"
  let ?b3 = "assign ?b2 q (set_controller v)"
  from assms(3,5) have cf: "cellAt b f = Inr (Some s1)" and cq: "cellAt b q = Inr (Some s2)"
    and wf: "within b f" and wq: "within b q"
    by (auto dest: slotAt_Some_cellAt slotAt_within)
  from assms(1) have ok: "cells_ok b" by (simp add: checkRep_iff)
  have b1: "(if \<not> faceUp s2 then assign b q (\<lambda>s. s\<lparr>faceUp := True\<rparr>) else b) = ?b1"
  proof (cases "faceUp s2")
    case True
    with cq have "?b1 = b" by (intro assign_same) (simp add: turn_up_def)
    with True show ?thesis by simp
  next
    case False
    then show ?thesis by (simp add: turn_up_def[abs_def])
  qed
  have "f = q \<Longrightarrow> s2 = s1" using cf cq by simp
  with \<open>faceUp s1\<close> have c1f: "cellAt ?b1 f = Inr (Some s1)"
    by (auto simp: cellAt_assign cf cq turn_up_def)
  with wf have s1f: "slotAt ?b1 f = Inr (Some s1)" by (simp add: slotAt_def)
  have c1q: "cellAt ?b1 q = Inr (Some (turn_up s2))" by (simp add: cellAt_assign cq)
  have k1: "checkRep ?b1 = None"
  proof (rule checkRep_assign[OF assms(1)])
    fix s assume "cellAt b q = Inr (Some s)"
    with ok show "slot_ok (turn_up s)" by (auto simp: cells_ok_pos slot_ok_turn_up)
  qed
  then have ok1: "cells_ok ?b1" by (simp add: checkRep_iff)
  have k2: "checkRep ?b2 = None"
  proof (rule checkRep_assign[OF k1])
    fix s assume "cellAt ?b1 f = Inr (Some s)"
    with c1f have "s = s1" by simp
    with ok1 c1f \<open>faceUp s1\<close> show "slot_ok (set_controller v s)"
      by (auto simp: cells_ok_pos slot_ok_set_controller_up)
  qed
  then have ok2: "cells_ok ?b2" by (simp add: checkRep_iff)
  have k3: "checkRep ?b3 = None"
  proof (rule checkRep_assign[OF k2])
    fix s assume a: "cellAt ?b2 q = Inr (Some s)"
    with ok2 have "slot_ok s" by (auto simp: cells_ok_pos)
    moreover from a c1q have "faceUp s"
      by (auto simp: cellAt_assign set_controller_def turn_up_def split: if_splits)
    ultimately show "slot_ok (set_controller v s)" by (rule slot_ok_set_controller_up)
  qed
  have w3: "within ?b3 x = within b x" for x by simp
  have k4: "checkRep (?b3\<lparr>pending := AList.update p (Some out) (pending ?b3)\<rparr>) = None"
  proof (rule checkRep_pending_update[OF k3])
    fix oc assume "Some out = Some oc"
    with out wf wq show "within ?b3 (out_first oc) \<and> within ?b3 (out_second oc)"
      by (auto simp: w3 split: if_splits)
  qed
  have r: "resolve f q p s1 s2 ?b1 =
      (None, ?b3\<lparr>pending := AList.update p (Some out) (pending b),
                firstSelection := AList.delete p (firstSelection b)\<rparr>)"
  proof (cases "label s1 = label s2")
    case True
    with v out have "v = Some p" "out = Matched f q" by simp_all
    with True k4 show ?thesis
      by (simp add: resolve_def Let_def set_controller_def[abs_def])
  next
    case False
    with v out have "v = None" "out = Mismatched f q" by simp_all
    with False k4 show ?thesis
      by (simp add: resolve_def Let_def set_controller_def[abs_def])
  qed
  have "flipSecond q p b = resolve f q p s1 s2 ?b1"
    unfolding flipSecond_def using assms(2,6) wq cq s1f
    by (auto simp add: b1 Let_def)
  with r show "flipSecond q p b =
      (None, ?b3\<lparr>pending := AList.update p (Some out) (pending b),
                firstSelection := AList.delete p (firstSelection b)\<rparr>)" by simp
  from resolve_returns_checked[OF r]
  show "checkRep (?b3\<lparr>pending := AList.update p (Some out) (pending b),
                firstSelection := AList.delete p (firstSelection b)\<rparr>) = None" .
qed


theorem flipSecond_fails_releases_first_witness:
  "checkRep board_alice_first = None \<and>
   map_of (firstSelection board_alice_first) alice = Some (Pos 0 0) \<and>
   slotAt board_alice_first (Pos 0 0) =
     Inr (Some \<lparr>label = card_A, faceUp = True, controller = Some alice\<rparr>) \<and>
   \<not> within board_alice_first (Pos 5 5) \<and>
   fst (flipSecond (Pos 5 5) alice board_alice_first) = Some EmptySpace_2A \<and>
   fst (flipSecond (Pos 0 0) alice board_alice_first) = Some Controlled_2B \<and>
   cellAt (snd (flipSecond (Pos 0 0) alice board_alice_first)) (Pos 0 0) =
     Inr (Some \<lparr>label = card_A, faceUp = True, controller = None\<rparr>) \<and>
   map_of (firstSelection (snd (flipSecond (Pos 0 0) alice board_alice_first))) alice = None"
proof -
  let ?s = "\<lparr>label = card_A, faceUp = True, controller = Some alice\<rparr>"
  have h1: "checkRep board_alice_first = None" by (simp add: board_alice_first_def eval_defs)
  have h2: "map_of (firstSelection board_alice_first) alice = Some (Pos 0 0)"
    by (simp add: board_alice_first_def)
  have h3: "slotAt board_alice_first (Pos 0 0) = Inr (Some ?s)"
    by (simp add: board_alice_first_def eval_defs)
  have h4: "flipSecond q alice board_alice_first =
     (fst (flipSecond q alice board_alice_first), snd (flipSecond q alice board_alice_first))" for q
    by simp
  have w: "\<not> within board_alice_first (Pos 5 5)" by (simp add: board_alice_first_def eval_defs)
  have c: "faceUp ?s \<and> controller ?s \<noteq> None" by simp
  from flipSecond_fails_releases_first[OF h1 h2 h3 h4[of "Pos 5 5"]] w
  have A: "fst (flipSecond (Pos 5 5) alice board_alice_first) = Some EmptySpace_2A" by simp
  from flipSecond_fails_releases_first[OF h1 h2 h3 h4[of "Pos 0 0"]] h3 c
  have B: "fst (flipSecond (Pos 0 0) alice board_alice_first) = Some Controlled_2B \<and>
    cellAt (snd (flipSecond (Pos 0 0) alice board_alice_first)) (Pos 0 0) =
      Inr (Some (?s\<lparr>controller := None\<rparr>)) \<and>
    map_of (firstSelection (snd (flipSecond (Pos 0 0) alice board_alice_first))) alice = None"
    by blast
  from A B h1 h2 h3 w show ?thesis by simp
qed

text \<open>
  Claim C4. On a board that satisfies the representation invariant, let \<open>p\<close> hold a first
  selection \<open>f\<close> whose slot \<open>s1\<close> is face-up, and let the target \<open>q\<close> hold a slot \<open>s2\<close>
  that passes the checks (not face-up and controlled). Then \<open>flipSecond(q, p)\<close> returns
  normally and the target is face-up afterwards. When the labels are equal both slots have
  controller \<open>p\<close> and \<open>pending.get(p)\<close> is \<open>Matched(f, q)\<close>; when they differ both slots have
  controller \<open>null\<close>, both are face-up, and \<open>pending.get(p)\<close> is \<open>Mismatched(f, q)\<close>. No
  other cell changes and \<open>firstSelection\<close> has no entry for \<open>p\<close>.
\<close>

theorem flipSecond_resolves:
  assumes "checkRep b = None"
    and "map_of (firstSelection b) p = Some f"
    and "slotAt b f = Inr (Some s1)" and "faceUp s1"
    and "slotAt b q = Inr (Some s2)" and "\<not> (faceUp s2 \<and> controller s2 \<noteq> None)"
    and "flipSecond q p b = (e, b')"
  shows "e = None \<and>
    (label s1 = label s2 \<longrightarrow>
       cellAt b' f = Inr (Some (s1\<lparr>controller := Some p\<rparr>)) \<and>
       cellAt b' q = Inr (Some (s2\<lparr>faceUp := True, controller := Some p\<rparr>)) \<and>
       pending_get b' p = Some (Matched f q)) \<and>
    (label s1 \<noteq> label s2 \<longrightarrow>
       cellAt b' f = Inr (Some (s1\<lparr>controller := None\<rparr>)) \<and>
       cellAt b' q = Inr (Some (s2\<lparr>faceUp := True, controller := None\<rparr>)) \<and>
       pending_get b' p = Some (Mismatched f q)) \<and>
    (\<forall>q'. q' \<noteq> f \<and> q' \<noteq> q \<longrightarrow> cellAt b' q' = cellAt b q') \<and>
    map_of (firstSelection b') p = None"
proof -
  define v where "v = (if label s1 = label s2 then Some p else None)"
  define out where "out = (if label s1 = label s2 then Matched f q else Mismatched f q)"
  let ?b3 = "assign (assign (assign b q turn_up) f (set_controller v)) q (set_controller v)"
  let ?b' = "?b3\<lparr>pending := AList.update p (Some out) (pending b),
                firstSelection := AList.delete p (firstSelection b)\<rparr>"
  from flipSecond_success(1)[OF assms(1-6) v_def out_def] assms(7)
  have e: "e = None" and b': "b' = ?b'" by simp_all
  from assms(3,5) have cf: "cellAt b f = Inr (Some s1)" and cq: "cellAt b q = Inr (Some s2)"
    by (auto dest: slotAt_Some_cellAt)
  have same: "f = q \<Longrightarrow> s2 = s1" using cf cq by simp
  have F: "cellAt b' f = Inr (Some (s1\<lparr>controller := v\<rparr>))"
    using same \<open>faceUp s1\<close>
    by (auto simp: b' cellAt_assign cf cq set_controller_def turn_up_def)
  have Q: "cellAt b' q = Inr (Some (s2\<lparr>faceUp := True, controller := v\<rparr>))"
    using same
    by (auto simp: b' cellAt_assign cf cq set_controller_def turn_up_def)
  have O: "\<forall>q'. q' \<noteq> f \<and> q' \<noteq> q \<longrightarrow> cellAt b' q' = cellAt b q'"
    by (simp add: b' cellAt_assign)
  have P: "pending_get b' p = Some out"
    by (simp add: b' pending_get_def update_conv')
  have S: "map_of (firstSelection b') p = None"
    by (simp add: b' delete_conv')
  have M1: "label s1 = label s2 \<longrightarrow>
       cellAt b' f = Inr (Some (s1\<lparr>controller := Some p\<rparr>)) \<and>
       cellAt b' q = Inr (Some (s2\<lparr>faceUp := True, controller := Some p\<rparr>)) \<and>
       pending_get b' p = Some (Matched f q)"
    using F Q P by (simp add: v_def out_def)
  have M2: "label s1 \<noteq> label s2 \<longrightarrow>
       cellAt b' f = Inr (Some (s1\<lparr>controller := None\<rparr>)) \<and>
       cellAt b' q = Inr (Some (s2\<lparr>faceUp := True, controller := None\<rparr>)) \<and>
       pending_get b' p = Some (Mismatched f q)"
    using F Q P by (simp add: v_def out_def)
  show ?thesis by (rule conjI[OF e conjI[OF M1 conjI[OF M2 conjI[OF O S]]]])
qed

theorem flipSecond_resolves_witness:
  "checkRep board_alice_first = None \<and>
   map_of (firstSelection board_alice_first) alice = Some (Pos 0 0) \<and>
   slotAt board_alice_first (Pos 0 0) =
     Inr (Some \<lparr>label = card_A, faceUp = True, controller = Some alice\<rparr>) \<and>
   slotAt board_alice_first (Pos 0 1) =
     Inr (Some \<lparr>label = card_A, faceUp = False, controller = None\<rparr>) \<and>
   slotAt board_alice_first (Pos 1 1) =
     Inr (Some \<lparr>label = card_B, faceUp = False, controller = None\<rparr>) \<and>
   fst (flipSecond (Pos 0 1) alice board_alice_first) = None \<and>
   cellAt (snd (flipSecond (Pos 0 1) alice board_alice_first)) (Pos 0 1) =
     Inr (Some \<lparr>label = card_A, faceUp = True, controller = Some alice\<rparr>) \<and>
   pending_get (snd (flipSecond (Pos 0 1) alice board_alice_first)) alice =
     Some (Matched (Pos 0 0) (Pos 0 1)) \<and>
   fst (flipSecond (Pos 1 1) alice board_alice_first) = None \<and>
   cellAt (snd (flipSecond (Pos 1 1) alice board_alice_first)) (Pos 0 0) =
     Inr (Some \<lparr>label = card_A, faceUp = True, controller = None\<rparr>) \<and>
   cellAt (snd (flipSecond (Pos 1 1) alice board_alice_first)) (Pos 1 1) =
     Inr (Some \<lparr>label = card_B, faceUp = True, controller = None\<rparr>) \<and>
   pending_get (snd (flipSecond (Pos 1 1) alice board_alice_first)) alice =
     Some (Mismatched (Pos 0 0) (Pos 1 1))"
proof -
  let ?s1 = "\<lparr>label = card_A, faceUp = True, controller = Some alice\<rparr>"
  let ?s2 = "\<lparr>label = card_A, faceUp = False, controller = None :: player option\<rparr>"
  let ?s3 = "\<lparr>label = card_B, faceUp = False, controller = None :: player option\<rparr>"
  have h1: "checkRep board_alice_first = None" by (simp add: board_alice_first_def eval_defs)
  have h2: "map_of (firstSelection board_alice_first) alice = Some (Pos 0 0)"
    by (simp add: board_alice_first_def)
  have h3: "slotAt board_alice_first (Pos 0 0) = Inr (Some ?s1)"
    by (simp add: board_alice_first_def eval_defs)
  have h4: "faceUp ?s1" by simp
  have h5: "slotAt board_alice_first (Pos 0 1) = Inr (Some ?s2)"
    by (simp add: board_alice_first_def eval_defs)
  have h5': "slotAt board_alice_first (Pos 1 1) = Inr (Some ?s3)"
    by (simp add: board_alice_first_def eval_defs)
  have h6: "\<not> (faceUp ?s2 \<and> controller ?s2 \<noteq> None)" "\<not> (faceUp ?s3 \<and> controller ?s3 \<noteq> None)"
    by simp_all
  have h7: "flipSecond q alice board_alice_first =
     (fst (flipSecond q alice board_alice_first), snd (flipSecond q alice board_alice_first))" for q
    by simp
  have l: "label ?s1 = label ?s2" "label ?s1 \<noteq> label ?s3" by (simp_all add: card_A_def card_B_def)
  from flipSecond_resolves[OF h1 h2 h3 h4 h5 h6(1) h7[of "Pos 0 1"]] l(1)
  have A: "fst (flipSecond (Pos 0 1) alice board_alice_first) = None \<and>
   cellAt (snd (flipSecond (Pos 0 1) alice board_alice_first)) (Pos 0 1) =
     Inr (Some (?s2\<lparr>faceUp := True, controller := Some alice\<rparr>)) \<and>
   pending_get (snd (flipSecond (Pos 0 1) alice board_alice_first)) alice =
     Some (Matched (Pos 0 0) (Pos 0 1))" by blast
  from flipSecond_resolves[OF h1 h2 h3 h4 h5' h6(2) h7[of "Pos 1 1"]] l(2)
  have B: "fst (flipSecond (Pos 1 1) alice board_alice_first) = None \<and>
   cellAt (snd (flipSecond (Pos 1 1) alice board_alice_first)) (Pos 0 0) =
     Inr (Some (?s1\<lparr>controller := None\<rparr>)) \<and>
   cellAt (snd (flipSecond (Pos 1 1) alice board_alice_first)) (Pos 1 1) =
     Inr (Some (?s3\<lparr>faceUp := True, controller := None\<rparr>)) \<and>
   pending_get (snd (flipSecond (Pos 1 1) alice board_alice_first)) alice =
     Some (Mismatched (Pos 0 0) (Pos 1 1))" by blast
  from A B h1 h2 h3 h5 h5' show ?thesis by simp
qed

section \<open>Snapshots\<close>

lemma collect_Inr: "collect (map Inr xs) = Inr xs"
  by (induction xs) simp_all

lemma cells_row_major:
  assumes "dims_ok b"
  shows "concat (map (\<lambda>i. map (\<lambda>j. getCell b (int i) (int j)) [0..<cols b]) [0..<rows b])
         = map Inr (concat (grid b))"
proof -
  have rw: "map (\<lambda>j. getCell b (int i) (int j)) [0..<cols b] = map Inr (grid b ! i)"
    if "i < length (grid b)" for i
  proof -
    from that assms have l: "length (grid b ! i) = cols b" by (simp add: dims_ok_def)
    have "map (\<lambda>j. getCell b (int i) (int j)) [0..<cols b]
          = map (\<lambda>j. Inr (grid b ! i ! j)) [0..<length (grid b ! i)]"
      using that l by (simp add: getCell_int)
    also have "\<dots> = map Inr (map (\<lambda>j. grid b ! i ! j) [0..<length (grid b ! i)])"
      by simp
    also have "\<dots> = map Inr (grid b ! i)" by (simp only: map_nth)
    finally show ?thesis .
  qed
  have "map (\<lambda>i. map (\<lambda>j. getCell b (int i) (int j)) [0..<cols b]) [0..<rows b]
        = map (\<lambda>i. map Inr (grid b ! i)) [0..<length (grid b)]"
    using assms rw by (simp add: dims_ok_def)
  also have "\<dots> = map (map Inr) (map (\<lambda>i. grid b ! i) [0..<length (grid b)])"
    by simp
  also have "\<dots> = map (map Inr) (grid b)" by (simp only: map_nth)
  finally show ?thesis by (simp add: map_concat)
qed

lemma snapshot_dims_ok:
  assumes "dims_ok b"
  shows "snapshot b p =
     Inr (join_nl ((decimal (rows b) @ [chr_x] @ decimal (cols b))
                   # map (cell_line p) (concat (grid b))) @ [10])"
  by (simp add: snapshot_def cells_row_major[OF assms] collect_Inr)

lemma length_concat_dims: "dims_ok b \<Longrightarrow> length (concat (grid b)) = rows b * cols b"
proof -
  assume d: "dims_ok b"
  then have "map length (grid b) = map (\<lambda>_. cols b) (grid b)"
    by (simp add: dims_ok_def)
  also have "\<dots> = replicate (rows b) (cols b)"
    using d by (simp add: map_replicate_const dims_ok_def)
  finally have "map length (grid b) = replicate (rows b) (cols b)" .
  then show ?thesis by (simp add: length_concat sum_list_replicate)
qed

lemma initial_grid_cells:
  "c \<in> set (concat (initial_grid n m labels)) \<Longrightarrow> \<exists>l. c = Some \<lparr>label = l, faceUp = False, controller = None\<rparr>"
  by (auto simp: initial_grid_def)

lemma construct_Inr:
  assumes "construct n m labels = Inr b"
  shows "checkRep b = None" "rows b = n" "cols b = m" "grid b = initial_grid n m labels"
    "firstSelection b = []" "pending b = []"
  using assms by (auto simp: construct_def Let_def split: if_splits option.splits)


lemma concat_nth_uniform:
  "\<forall>xs \<in> set xss. length xs = m \<Longrightarrow> i < length xss \<Longrightarrow> j < m \<Longrightarrow>
   concat xss ! (i * m + j) = xss ! i ! j"
proof (induction xss arbitrary: i)
  case Nil
  then show ?case by simp
next
  case (Cons xs xss)
  show ?case
  proof (cases i)
    case 0
    with Cons.prems show ?thesis by (simp add: nth_append)
  next
    case (Suc k)
    with Cons.prems have "concat xss ! (k * m + j) = xss ! k ! j"
      by (intro Cons.IH) simp_all
    moreover have "Suc k * m + j = length xs + (k * m + j)" using Cons.prems by simp
    ultimately show ?thesis using Suc by (simp only: concat.simps nth_append_length_plus nth_Cons_Suc)
  qed
qed

text \<open>
  Claim C8. \<open>snapshot\<close> is a function of the board and the player alone. On a board that
  satisfies the representation invariant it returns the dimension line followed by one line
  per cell in row-major order, each line ended by a newline: \<open>none\<close> for an empty cell,
  \<open>down\<close> for a face-down slot, \<open>my <label>\<close> for a face-up slot controlled by the player and
  \<open>up <label>\<close> for any other face-up slot. On a board just returned by the constructor every
  cell line is \<open>down\<close>, for every player.
\<close>

theorem snapshot_spec:
  assumes "checkRep b = None"
  shows "snapshot b p =
      Inr (join_nl ((decimal (rows b) @ [chr_x] @ decimal (cols b))
                    # map (cell_line p) (concat (grid b))) @ [10]) \<and>
    length (concat (grid b)) = rows b * cols b \<and>
    (\<forall>i j. i < rows b \<and> j < cols b \<longrightarrow>
       getCell b (int i) (int j) = Inr (concat (grid b) ! (i * cols b + j))) \<and>
    cell_line p None = str_none \<and>
    (\<forall>s. \<not> faceUp s \<longrightarrow> cell_line p (Some s) = str_down) \<and>
    (\<forall>s. faceUp s \<and> controller s = Some p \<longrightarrow> cell_line p (Some s) = str_my @ label s) \<and>
    (\<forall>s. faceUp s \<and> controller s \<noteq> Some p \<longrightarrow> cell_line p (Some s) = str_up @ label s) \<and>
    (\<forall>n m labels. construct n m labels = Inr b \<longrightarrow>
       snapshot b p =
         Inr (join_nl ((decimal n @ [chr_x] @ decimal m) # replicate (n * m) str_down) @ [10]))"
proof -
  from assms have d: "dims_ok b" by (simp add: checkRep_iff)
  note S = snapshot_dims_ok[OF d, of p]
  note L = length_concat_dims[OF d]
  have N: "\<forall>i j. i < rows b \<and> j < cols b \<longrightarrow>
       getCell b (int i) (int j) = Inr (concat (grid b) ! (i * cols b + j))"
  proof (intro allI impI)
    fix i j assume "i < rows b \<and> j < cols b"
    with d have ij: "i < length (grid b)" "j < cols b" "j < length (grid b ! i)"
      and u: "\<forall>xs \<in> set (grid b). length xs = cols b"
      by (auto simp: dims_ok_def)
    from concat_nth_uniform[OF u ij(1,2)] ij
    show "getCell b (int i) (int j) = Inr (concat (grid b) ! (i * cols b + j))"
      by (simp add: getCell_int)
  qed
  have C1: "cell_line p None = str_none" by (simp add: cell_line_def)
  have C2: "\<forall>s. \<not> faceUp s \<longrightarrow> cell_line p (Some s) = str_down" by (simp add: cell_line_def)
  have C3: "\<forall>s. faceUp s \<and> controller s = Some p \<longrightarrow> cell_line p (Some s) = str_my @ label s"
    by (simp add: cell_line_def)
  have C4: "\<forall>s. faceUp s \<and> controller s \<noteq> Some p \<longrightarrow> cell_line p (Some s) = str_up @ label s"
    by (simp add: cell_line_def)
  have K: "\<forall>n m labels. construct n m labels = Inr b \<longrightarrow>
       snapshot b p =
         Inr (join_nl ((decimal n @ [chr_x] @ decimal m) # replicate (n * m) str_down) @ [10])"
  proof (intro allI impI)
    fix n m labels assume c: "construct n m labels = Inr b"
    note cb = construct_Inr[OF c]
    have "cell_line p x = str_down" if "x \<in> set (concat (grid b))" for x
    proof -
      from that cb(4) have "x \<in> set (concat (initial_grid n m labels))" by simp
      then obtain l where "x = Some \<lparr>label = l, faceUp = False, controller = None\<rparr>"
        using initial_grid_cells by blast
      then show ?thesis by (simp add: cell_line_def)
    qed
    then have "map (cell_line p) (concat (grid b)) = map (\<lambda>_. str_down) (concat (grid b))"
      by (intro map_cong) simp_all
    also have "\<dots> = replicate (n * m) str_down"
      using L cb(2,3) by (simp add: map_replicate_const)
    finally show "snapshot b p =
         Inr (join_nl ((decimal n @ [chr_x] @ decimal m) # replicate (n * m) str_down) @ [10])"
      using S cb(2,3) by simp
  qed
  show ?thesis
    by (rule conjI[OF S conjI[OF L conjI[OF N conjI[OF C1 conjI[OF C2 conjI[OF C3 conjI[OF C4 K]]]]]]])
qed

theorem snapshot_spec_witness:
  "checkRep board_alice_first = None \<and>
   snapshot board_alice_first alice =
     Inr ([50, 120, 50, 10] @ str_my @ card_A @ [10] @ str_down @ [10] @ str_down @ [10]
          @ str_down @ [10]) \<and>
   snapshot board_alice_first bob =
     Inr ([50, 120, 50, 10] @ str_up @ card_A @ [10] @ str_down @ [10] @ str_down @ [10]
          @ str_down @ [10]) \<and>
   checkRep board_fresh = None \<and>
   construct 2 2 [card_A, card_A, card_B, card_B] = Inr board_fresh \<and>
   snapshot board_fresh bob =
     Inr ([50, 120, 50, 10] @ str_down @ [10] @ str_down @ [10] @ str_down @ [10]
          @ str_down @ [10])"
proof -
  have h1: "checkRep board_alice_first = None" by (simp add: board_alice_first_def eval_defs)
  have h2: "checkRep board_fresh = None" by (simp add: board_fresh_def eval_defs)
  have h3: "construct 2 2 [card_A, card_A, card_B, card_B] = Inr board_fresh"
    using h2 by (simp add: construct_def initial_grid_def board_fresh_def upt_rec)
  have d: "decimal 2 = [50]" by (simp add: decimal.simps)
  from snapshot_spec[OF h1, of alice]
  have A: "snapshot board_alice_first alice =
     Inr ([50, 120, 50, 10] @ str_my @ card_A @ [10] @ str_down @ [10] @ str_down @ [10]
          @ str_down @ [10])"
    by (simp add: board_alice_first_def d chr_x_def cell_line_def)
  from snapshot_spec[OF h1, of bob]
  have B: "snapshot board_alice_first bob =
     Inr ([50, 120, 50, 10] @ str_up @ card_A @ [10] @ str_down @ [10] @ str_down @ [10]
          @ str_down @ [10])"
    by (simp add: board_alice_first_def d chr_x_def cell_line_def alice_def bob_def)
  have r: "replicate (2 * 2) str_down = [str_down, str_down, str_down, str_down]"
    by (simp add: numeral_eq_Suc)
  from snapshot_spec[OF h2, of bob]
  have "construct 2 2 [card_A, card_A, card_B, card_B] = Inr board_fresh \<longrightarrow>
     snapshot board_fresh bob =
       Inr (join_nl ((decimal 2 @ [chr_x] @ decimal 2) # replicate (2 * 2) str_down) @ [10])"
    by blast
  with h3 have C: "snapshot board_fresh bob =
     Inr ([50, 120, 50, 10] @ str_down @ [10] @ str_down @ [10] @ str_down @ [10]
          @ str_down @ [10])"
    by (simp only: r) (simp add: d chr_x_def)
  from A B C h1 h2 h3 show ?thesis by simp
qed

section \<open>Parsing a board definition\<close>

lemma chr_x_not_digit: "\<not> is_digit chr_x"
  by (simp add: is_digit_def chr_x_def)

lemma match_header_iff:
  "match_header h = Some (g1, g2) \<longleftrightarrow>
     h = g1 @ [chr_x] @ g2 \<and> g1 \<noteq> [] \<and> g2 \<noteq> [] \<and> list_all is_digit g1 \<and> list_all is_digit g2"
proof
  assume m: "match_header h = Some (g1, g2)"
  then obtain x ds where d: "dropWhile is_digit h = x # ds"
    by (auto simp: match_header_def split: list.splits)
  with m have f: "takeWhile is_digit h = g1" "x = chr_x" "ds = g2" "g1 \<noteq> []" "g2 \<noteq> []"
    "list_all is_digit g2"
    by (auto simp: match_header_def split: if_splits)
  have "h = takeWhile is_digit h @ dropWhile is_digit h" by simp
  with d f have "h = g1 @ [chr_x] @ g2" by simp
  moreover have "list_all is_digit g1"
    using f(1) by (metis list_all_iff set_takeWhileD)
  ultimately show "h = g1 @ [chr_x] @ g2 \<and> g1 \<noteq> [] \<and> g2 \<noteq> [] \<and> list_all is_digit g1 \<and> list_all is_digit g2"
    using f by simp
next
  assume a: "h = g1 @ [chr_x] @ g2 \<and> g1 \<noteq> [] \<and> g2 \<noteq> [] \<and> list_all is_digit g1 \<and> list_all is_digit g2"
  then have g: "\<And>x. x \<in> set g1 \<Longrightarrow> is_digit x" by (simp add: list_all_iff)
  from a have h: "h = g1 @ chr_x # g2" by simp
  have t: "takeWhile is_digit h = g1"
    unfolding h using g by (simp add: takeWhile_append2 chr_x_not_digit)
  have d: "dropWhile is_digit h = chr_x # g2"
    unfolding h using g by (simp add: dropWhile_append2 chr_x_not_digit)
  from a t d show "match_header h = Some (g1, g2)" by (simp add: match_header_def)
qed


lemma index_in_range:
  assumes "i < n" "j < (m::nat)"
  shows "i * m + j < n * m"
proof -
  from assms(2) have "i * m + j < Suc i * m" by simp
  also from assms(1) have "Suc i * m \<le> n * m" by (intro mult_le_mono1) simp
  finally show ?thesis .
qed

lemma initial_grid_nth:
  "i < n \<Longrightarrow> j < m \<Longrightarrow>
   initial_grid n m labels ! i ! j = Some \<lparr>label = labels ! (i * m + j), faceUp = False, controller = None\<rparr>"
  by (simp add: initial_grid_def)

lemma initial_grid_dims:
  "length (initial_grid n m labels) = n"
  "rw \<in> set (initial_grid n m labels) \<Longrightarrow> length rw = m"
  by (auto simp: initial_grid_def)

lemma construct_ok:
  assumes "length labels = n * m" "\<forall>c \<in> set labels. cardRe c"
  shows "construct n m labels =
     Inr \<lparr>rows = n, cols = m, grid = initial_grid n m labels, firstSelection = [], pending = []\<rparr>"
proof -
  let ?b = "\<lparr>rows = n, cols = m, grid = initial_grid n m labels, firstSelection = [], pending = []\<rparr>"
  have no_missing: "\<not> list_ex (\<lambda>i. list_ex (\<lambda>j. \<not> i * m + j < length labels) [0..<m]) [0..<n]"
    using index_in_range[of _ n _ m] assms(1) by (auto simp: list_ex_iff)
  have d: "dims_ok ?b" by (simp add: dims_ok_def initial_grid_dims)
  have c: "cells_ok ?b"
    unfolding cells_ok_def
  proof (intro allI impI)
    fix i j s assume "getCell ?b i j = Inr (Some s)"
    then obtain i' j' where ij: "i' < length (grid ?b)" "j' < length (grid ?b ! i')"
      "grid ?b ! i' ! j' = Some s" by (rule getCell_SomeD)
    then have "i' < n" by (simp add: initial_grid_dims)
    then have "initial_grid n m labels ! i' \<in> set (initial_grid n m labels)"
      by (simp add: initial_grid_dims)
    then have "length (initial_grid n m labels ! i') = m" by (rule initial_grid_dims(2))
    with ij(2) \<open>i' < n\<close> have r: "i' < n" "j' < m" by simp_all
    with ij(3) have s: "s = \<lparr>label = labels ! (i' * m + j'), faceUp = False, controller = None\<rparr>"
      by (simp add: initial_grid_nth)
    from r assms(1) have "i' * m + j' < length labels" by (simp add: index_in_range)
    with assms(2) have "cardRe (labels ! (i' * m + j'))" by simp
    with s show "slot_ok s" by (simp add: slot_ok_def)
  qed
  have "pending_ok ?b" by (simp add: pending_ok_def)
  with d c have "checkRep ?b = None" by (simp add: checkRep_iff)
  with no_missing show ?thesis by (simp add: construct_def Let_def)
qed

text \<open>
  Claim C9. \<open>parseFromFile\<close> returns a board exactly when the non-empty lines of the text are
  a header \<open>ROWSxCOLS\<close> of two decimal numerals, both positive, followed by exactly
  \<open>ROWS * COLS\<close> lines none of which contains white space; the board is then the one the
  constructor builds from those lines. In every other case it throws one of its own five
  diagnostics and no board is returned.
\<close>

theorem parseFromFile_spec:
  "(parseFromFile txt = Inr b \<longleftrightarrow>
      (\<exists>g1 g2 cards.
         file_lines txt = (g1 @ [chr_x] @ g2) # cards \<and>
         g1 \<noteq> [] \<and> g2 \<noteq> [] \<and> list_all is_digit g1 \<and> list_all is_digit g2 \<and>
         0 < parseInt g1 \<and> 0 < parseInt g2 \<and>
         length cards = parseInt g1 * parseInt g2 \<and>
         list_all (\<lambda>c. list_all (\<lambda>x. \<not> is_space x) c) cards \<and>
         b = \<lparr>rows = parseInt g1, cols = parseInt g2,
              grid = initial_grid (parseInt g1) (parseInt g2) cards,
              firstSelection = [], pending = []\<rparr>)) \<and>
   (\<forall>e. parseFromFile txt = Inl e \<longrightarrow> format_error e)"
proof -
  have ne: "\<And>c cs. file_lines txt = c # cs \<Longrightarrow> \<forall>l \<in> set cs. l \<noteq> []"
  proof
    fix c cs l assume "file_lines txt = c # cs" "l \<in> set cs"
    then have "l \<in> set (file_lines txt)" by simp
    then show "l \<noteq> []" by (auto simp: file_lines_def)
  qed
  have re: "(\<forall>c \<in> set cs. cardRe c) \<longleftrightarrow> list_all (\<lambda>c. list_all (\<lambda>x. \<not> is_space x) c) cs"
    if "\<forall>l \<in> set cs. l \<noteq> []" for cs
    using that by (auto simp: cardRe_def list_all_iff)
  show ?thesis
  proof (cases "file_lines txt")
    case Nil
    then show ?thesis by (simp add: parseFromFile_def format_error_def)
  next
    case (Cons header cards)
    note nec = ne[OF Cons]
    show ?thesis
    proof (cases "match_header header")
      case None
      have "\<not> (header = g1 @ [chr_x] @ g2 \<and> g1 \<noteq> [] \<and> g2 \<noteq> [] \<and>
          list_all is_digit g1 \<and> list_all is_digit g2)" for g1 g2
      proof
        assume "header = g1 @ [chr_x] @ g2 \<and> g1 \<noteq> [] \<and> g2 \<noteq> [] \<and>
          list_all is_digit g1 \<and> list_all is_digit g2"
        then have "match_header header = Some (g1, g2)" by (rule match_header_iff[THEN iffD2])
        with None show False by simp
      qed
      then have "\<not> (\<exists>g1 g2 cards'.
         file_lines txt = (g1 @ [chr_x] @ g2) # cards' \<and>
         g1 \<noteq> [] \<and> g2 \<noteq> [] \<and> list_all is_digit g1 \<and> list_all is_digit g2 \<and>
         0 < parseInt g1 \<and> 0 < parseInt g2 \<and>
         length cards' = parseInt g1 * parseInt g2 \<and>
         list_all (\<lambda>c. list_all (\<lambda>x. \<not> is_space x) c) cards' \<and>
         b = \<lparr>rows = parseInt g1, cols = parseInt g2,
              grid = initial_grid (parseInt g1) (parseInt g2) cards',
              firstSelection = [], pending = []\<rparr>)"
        unfolding Cons by blast
      moreover from None Cons have "parseFromFile txt = Inl (MalformedHeader header)"
        by (simp add: parseFromFile_def)
      ultimately show ?thesis by (simp add: format_error_def)
    next
      case (Some g)
      obtain g1 g2 where g: "g = (g1, g2)" by (cases g)
      with Some have mh: "match_header header = Some (g1, g2)" by simp
      then have hd: "header = g1 @ [chr_x] @ g2" "g1 \<noteq> []" "g2 \<noteq> []"
        "list_all is_digit g1" "list_all is_digit g2"
        by (simp_all add: match_header_iff)
      have uniq: "g1' = g1 \<and> g2' = g2"
        if "header = g1' @ [chr_x] @ g2'" "g1' \<noteq> []" "g2' \<noteq> []"
          "list_all is_digit g1'" "list_all is_digit g2'" for g1' g2'
      proof -
        from that have "match_header header = Some (g1', g2')" by (simp add: match_header_iff)
        with mh show ?thesis by simp
      qed
      let ?n = "parseInt g1" and ?m = "parseInt g2"
      let ?b = "\<lparr>rows = ?n, cols = ?m, grid = initial_grid ?n ?m cards,
                 firstSelection = [], pending = []\<rparr>"
      let ?ok = "0 < ?n \<and> 0 < ?m \<and> length cards = ?n * ?m \<and>
                 list_all (\<lambda>c. list_all (\<lambda>x. \<not> is_space x) c) cards"
      have spec_iff: "(\<exists>g1' g2' cards'.
         file_lines txt = (g1' @ [chr_x] @ g2') # cards' \<and>
         g1' \<noteq> [] \<and> g2' \<noteq> [] \<and> list_all is_digit g1' \<and> list_all is_digit g2' \<and>
         0 < parseInt g1' \<and> 0 < parseInt g2' \<and>
         length cards' = parseInt g1' * parseInt g2' \<and>
         list_all (\<lambda>c. list_all (\<lambda>x. \<not> is_space x) c) cards' \<and>
         b = \<lparr>rows = parseInt g1', cols = parseInt g2',
              grid = initial_grid (parseInt g1') (parseInt g2') cards',
              firstSelection = [], pending = []\<rparr>) \<longleftrightarrow> (?ok \<and> b = ?b)"
        (is "?L \<longleftrightarrow> ?R")
      proof
        assume ?L
        then obtain g1' g2' cards' where L: "file_lines txt = (g1' @ [chr_x] @ g2') # cards'"
          "g1' \<noteq> []" "g2' \<noteq> []" "list_all is_digit g1'" "list_all is_digit g2'"
          "0 < parseInt g1'" "0 < parseInt g2'" "length cards' = parseInt g1' * parseInt g2'"
          "list_all (\<lambda>c. list_all (\<lambda>x. \<not> is_space x) c) cards'"
          "b = \<lparr>rows = parseInt g1', cols = parseInt g2',
              grid = initial_grid (parseInt g1') (parseInt g2') cards',
              firstSelection = [], pending = []\<rparr>" by blast
        from L(1) Cons have "header = g1' @ [chr_x] @ g2'" "cards' = cards" by simp_all
        with uniq L(2-5) have "g1' = g1" "g2' = g2" by blast+
        with L \<open>cards' = cards\<close> show ?R by simp
      next
        assume ?R
        with Cons hd show ?L by blast
      qed
      have run: "parseFromFile txt =
         (if ?n \<le> 0 \<or> ?m \<le> 0 then Inl RowsColsNotPositive
          else if length cards \<noteq> ?n * ?m then Inl (WrongCardCount (?n * ?m) (length cards))
          else (case find (\<lambda>c. \<not> cardRe c) cards of
                  Some c \<Rightarrow> Inl (InvalidCard c)
                | None \<Rightarrow> construct ?n ?m cards))"
        using Cons mh by (simp add: parseFromFile_def Let_def)
      show ?thesis
      proof (cases ?ok)
        case True
        with re[OF nec] have "\<forall>c \<in> set cards. cardRe c" by simp
        then have "find (\<lambda>c. \<not> cardRe c) cards = None" by (simp add: find_None_iff)
        moreover from True \<open>\<forall>c \<in> set cards. cardRe c\<close> have "construct ?n ?m cards = Inr ?b"
          by (intro construct_ok) simp_all
        ultimately have "parseFromFile txt = Inr ?b" using run True by simp
        with spec_iff True show ?thesis by auto
      next
        case False
        have "\<exists>e. parseFromFile txt = Inl e \<and> format_error e"
        proof (cases "?n \<le> 0 \<or> ?m \<le> 0")
          case True
          with run show ?thesis by (simp add: format_error_def)
        next
          case pos: False
          show ?thesis
          proof (cases "length cards \<noteq> ?n * ?m")
            case True
            with run pos show ?thesis by (simp add: format_error_def)
          next
            case len: False
            with pos False have "\<not> list_all (\<lambda>c. list_all (\<lambda>x. \<not> is_space x) c) cards" by simp
            with re[OF nec] have "\<not> (\<forall>c \<in> set cards. cardRe c)" by simp
            then obtain c where "find (\<lambda>c. \<not> cardRe c) cards = Some c"
              by (cases "find (\<lambda>c. \<not> cardRe c) cards") (auto simp: find_None_iff)
            with run pos len show ?thesis by (simp add: format_error_def)
          qed
        qed
        then obtain e where "parseFromFile txt = Inl e" "format_error e" by blast
        with spec_iff False show ?thesis by auto
      qed
    qed
  qed
qed


lemmas parse_defs = parseFromFile_def file_lines_def replace_cr_def match_header_def is_digit_def
  parseInt_def chr_x_def construct_def initial_grid_def Let_def

theorem parseFromFile_spec_witness:
  "parseFromFile text_good = Inr board_fresh \<and>
   (\<exists>g1 g2 cards. file_lines text_good = (g1 @ [chr_x] @ g2) # cards \<and>
      0 < parseInt g1 \<and> 0 < parseInt g2 \<and> length cards = parseInt g1 * parseInt g2) \<and>
   parseFromFile text_short = Inl (WrongCardCount 4 3) \<and>
   format_error (WrongCardCount 4 3)"
proof -
  have g: "parseFromFile text_good = Inr board_fresh"
    by (simp add: text_good_def board_fresh_def parse_defs eval_defs)
  have s: "parseFromFile text_short = Inl (WrongCardCount 4 3)"
    by (simp add: text_short_def parse_defs eval_defs)
  from parseFromFile_spec[of text_good board_fresh] g
  have "\<exists>g1 g2 cards. file_lines text_good = (g1 @ [chr_x] @ g2) # cards \<and>
      0 < parseInt g1 \<and> 0 < parseInt g2 \<and> length cards = parseInt g1 * parseInt g2"
    by blast
  moreover from parseFromFile_spec[of text_short] s have "format_error (WrongCardCount 4 3)"
    by blast
  ultimately show ?thesis using g s by simp
qed

section \<open>The invariant of reachable boards\<close>

lemma Inv_construct:
  assumes "construct n m labels = Inr b"
  shows "Inv b"
  using construct_Inr[OF assms]
  by (simp add: Inv_def first_held_def matched_owned_def turn_exclusive_def pending_get_def)

lemma flip_down_props [simp]:
  "controller (flip_down s) = controller s"
  "controller s \<noteq> None \<Longrightarrow> flip_down s = s"
  by (simp_all add: flip_down_def)

lemma Inv_settle:
  assumes "Inv b"
  obtains b1 where "settleBeforeNewFirstMove p b = (None, b1)" "Inv b1" "pending_get b1 p = None"
proof (cases "pending_get b p")
  case None
  with assms that[of b] show thesis by (simp add: settle_none)
next
  case (Some out)
  from assms have ck: "checkRep b = None" and fh: "first_held b" and mo: "matched_owned b"
    and te: "turn_exclusive b" by (simp_all add: Inv_def)
  show thesis
  proof (cases out)
    case (Matched a a')
    with Some have pg: "pending_get b p = Some (Matched a a')" by simp
    from settle_matched[OF ck pg] obtain b' where b': "settleBeforeNewFirstMove p b = (None, b')"
      "checkRep b' = None" "firstSelection b' = firstSelection b"
      "pending b' = AList.update p None (pending b)"
      "\<And>q. cellAt b' q = (if q = a \<or> q = a' then Inr None else cellAt b q)"
      by metis
    from b'(4) have pg': "pending_get b' r = (if r = p then None else pending_get b r)" for r
      by (simp add: pending_get_def update_conv')
    have "first_held b'"
      unfolding first_held_def
    proof (intro allI impI)
      fix r f assume "map_of (firstSelection b') r = Some f"
      then have f: "map_of (firstSelection b) r = Some f" by (simp add: b'(3))
      with fh obtain s where s: "cellAt b f = Inr (Some s)" "faceUp s" "controller s = Some r"
        by (auto simp: first_held_def)
      have "\<not> (f = a \<or> f = a')"
      proof
        assume "f = a \<or> f = a'"
        with mo pg s have "r = p" by (auto simp: matched_owned_def)
        with te f pg show False by (auto simp: turn_exclusive_def)
      qed
      with s show "\<exists>s. cellAt b' f = Inr (Some s) \<and> faceUp s \<and> controller s = Some r"
        by (simp add: b'(5))
    qed
    moreover have "matched_owned b'"
      unfolding matched_owned_def
    proof (intro allI impI)
      fix r c c' x s
      assume "pending_get b' r = Some (Matched c c')" "x = c \<or> x = c'" "cellAt b' x = Inr (Some s)"
      then have "pending_get b r = Some (Matched c c')" "cellAt b x = Inr (Some s)"
        by (auto simp: pg' b'(5) split: if_splits)
      with mo \<open>x = c \<or> x = c'\<close> show "controller s = Some r"
        unfolding matched_owned_def by blast
    qed
    moreover have "turn_exclusive b'"
      using te by (auto simp: turn_exclusive_def pg' b'(3))
    ultimately have "Inv b'" using b'(2) by (simp add: Inv_def)
    with b'(1) pg'[of p] that[of b'] show thesis by simp
  next
    case (Mismatched a a')
    with Some have pg: "pending_get b p = Some (Mismatched a a')" by simp
    from settle_mismatched[OF ck pg] obtain b' where b': "settleBeforeNewFirstMove p b = (None, b')"
      "checkRep b' = None" "firstSelection b' = firstSelection b"
      "pending b' = AList.update p None (pending b)"
      "\<And>q. cellAt b' q =
         (if q = a \<or> q = a' then map_sum id (map_option flip_down) (cellAt b q) else cellAt b q)"
      by metis
    from b'(4) have pg': "pending_get b' r = (if r = p then None else pending_get b r)" for r
      by (simp add: pending_get_def update_conv')
    have held: "cellAt b' q = Inr (Some s)"
      if "cellAt b q = Inr (Some s)" "controller s \<noteq> None" for q s
      using that by (simp add: b'(5))
    have orig: "\<exists>s0. cellAt b q = Inr (Some s0) \<and> controller s0 = controller s"
      if "cellAt b' q = Inr (Some s)" for q s
      using that by (cases "cellAt b q") (auto simp: b'(5) split: if_splits)
    have "first_held b'"
      unfolding first_held_def
    proof (intro allI impI)
      fix r f assume "map_of (firstSelection b') r = Some f"
      then have f: "map_of (firstSelection b) r = Some f" by (simp add: b'(3))
      with fh obtain s where s: "cellAt b f = Inr (Some s)" "faceUp s" "controller s = Some r"
        by (auto simp: first_held_def)
      with held[of f s] show "\<exists>s. cellAt b' f = Inr (Some s) \<and> faceUp s \<and> controller s = Some r"
        by auto
    qed
    moreover have "matched_owned b'"
      unfolding matched_owned_def
    proof (intro allI impI)
      fix r c c' x s
      assume a: "pending_get b' r = Some (Matched c c')" "x = c \<or> x = c'" "cellAt b' x = Inr (Some s)"
      then have "pending_get b r = Some (Matched c c')" by (auto simp: pg' split: if_splits)
      moreover from orig[OF a(3)] obtain s0 where "cellAt b x = Inr (Some s0)"
        "controller s0 = controller s" by blast
      ultimately show "controller s = Some r"
        using mo a(2) unfolding matched_owned_def by metis
    qed
    moreover have "turn_exclusive b'"
      using te by (auto simp: turn_exclusive_def pg' b'(3))
    ultimately have "Inv b'" using b'(2) by (simp add: Inv_def)
    with b'(1) pg'[of p] that[of b'] show thesis by simp
  qed
qed


lemma flipFirst_fail_state:
  assumes "settleBeforeNewFirstMove p b = (None, b1)"
    and "\<And>s. slotAt b1 q = Inr (Some s) \<Longrightarrow> faceUp s \<and> controller s \<noteq> None \<and> controller s \<noteq> Some p"
  shows "snd (flipFirst q p b) = b1"
proof (cases "slotAt b1 q")
  case (Inl e)
  with assms(1) show ?thesis by (simp add: flipFirst_def)
next
  case (Inr x)
  show ?thesis
  proof (cases x)
    case None
    with Inr assms(1) show ?thesis by (simp add: flipFirst_def)
  next
    case (Some s)
    with Inr assms(2) have "faceUp s \<and> controller s \<noteq> None \<and> controller s \<noteq> Some p" by simp
    with Inr Some assms(1) show ?thesis by (auto simp add: flipFirst_def)
  qed
qed

lemma Inv_take_first:
  assumes "Inv b1" "pending_get b1 p = None" "cellAt b1 q = Inr (Some s)"
    and free: "\<not> (faceUp s \<and> controller s \<noteq> None \<and> controller s \<noteq> Some p)"
    and ck: "checkRep (assign b1 q (take_first p)) = None"
  shows "Inv ((assign b1 q (take_first p))\<lparr>firstSelection := AList.update p q (firstSelection b1)\<rparr>)"
    (is "Inv ?b2")
proof -
  from assms(1) have ck1: "checkRep b1 = None" and fh: "first_held b1" and mo: "matched_owned b1"
    and te: "turn_exclusive b1" by (simp_all add: Inv_def)
  from ck1 assms(3) have ok: "slot_ok s" by (auto simp: checkRep_iff cells_ok_pos)
  have cell: "cellAt (assign b1 q (take_first p)) x =
      (if x = q then Inr (Some (take_first p s)) else cellAt b1 x)" for x
    by (simp add: cellAt_assign assms(3))
  have fs: "map_of (firstSelection ?b2) r = (if r = p then Some q else map_of (firstSelection b1) r)" for r
    by (simp add: update_conv')
  have pg: "pending_get ?b2 r = pending_get b1 r" for r by (simp add: pending_get_def)
  have "first_held ?b2"
    unfolding first_held_def
  proof (intro allI impI)
    fix r f assume a: "map_of (firstSelection ?b2) r = Some f"
    show "\<exists>s. cellAt ?b2 f = Inr (Some s) \<and> faceUp s \<and> controller s = Some r"
    proof (cases "r = p")
      case True
      with a have "f = q" by (simp add: update_conv')
      with True show ?thesis by (simp add: cell take_first_def)
    next
      case False
      with a have "map_of (firstSelection b1) r = Some f" by (simp add: update_conv')
      with fh obtain s' where s': "cellAt b1 f = Inr (Some s')" "faceUp s'" "controller s' = Some r"
        by (auto simp: first_held_def)
      have "f \<noteq> q"
      proof
        assume "f = q"
        with s' assms(3) have "s' = s" by simp
        with s' free False show False by simp
      qed
      with s' show ?thesis by (simp add: cell)
    qed
  qed
  moreover have "matched_owned ?b2"
    unfolding matched_owned_def
  proof (intro allI impI)
    fix r c c' x s'
    assume a: "pending_get ?b2 r = Some (Matched c c')" "x = c \<or> x = c'" "cellAt ?b2 x = Inr (Some s')"
    then have m: "pending_get b1 r = Some (Matched c c')" by (simp add: pg)
    have "x \<noteq> q"
    proof
      assume "x = q"
      with mo m a(2) assms(3) have c: "controller s = Some r"
        unfolding matched_owned_def by blast
      with ok have "faceUp s" by (auto simp: slot_ok_def)
      with free c have "r = p" by simp
      with m assms(2) show False by simp
    qed
    with a(3) have "cellAt b1 x = Inr (Some s')" by (simp add: cell)
    with mo m a(2) show "controller s' = Some r" unfolding matched_owned_def by blast
  qed
  moreover have "turn_exclusive ?b2"
    using te assms(2) by (auto simp: turn_exclusive_def update_conv' pg split: if_splits)
  moreover from ck have "checkRep ?b2 = None" by simp
  ultimately show ?thesis by (simp add: Inv_def)
qed

lemma Inv_flipFirst:
  assumes "Inv b"
  shows "Inv (snd (flipFirst q p b))"
proof -
  from assms obtain b1 where b1: "settleBeforeNewFirstMove p b = (None, b1)" "Inv b1"
    "pending_get b1 p = None" by (rule Inv_settle)
  from assms have ck: "checkRep b = None" by (simp add: Inv_def)
  show ?thesis
  proof (cases "\<exists>s. slotAt b1 q = Inr (Some s) \<and>
                 \<not> (faceUp s \<and> controller s \<noteq> None \<and> controller s \<noteq> Some p)")
    case False
    then have "snd (flipFirst q p b) = b1"
      by (intro flipFirst_fail_state[OF b1(1)]) blast
    with b1(2) show ?thesis by simp
  next
    case True
    then obtain s where s: "slotAt b1 q = Inr (Some s)"
      "\<not> (faceUp s \<and> controller s \<noteq> None \<and> controller s \<noteq> Some p)" by blast
    note su = flipFirst_success[OF ck b1(1) s]
    from s(1) have c: "cellAt b1 q = Inr (Some s)" by (rule slotAt_Some_cellAt)
    from Inv_take_first[OF b1(2,3) c s(2) su(2)] su(1) show ?thesis by simp
  qed
qed


lemma relinquish_returns_checked:
  assumes "relinquishFirstOnly p b = (None, b')" "map_of (firstSelection b) p = Some f"
  shows "checkRep b' = None"
  using assms by (auto simp: relinquishFirstOnly_def Let_def split: sum.splits)

lemma Inv_relinquish:
  assumes "Inv b" "map_of (firstSelection b) p = Some f"
  shows "relinquishFirstOnly p b =
      (None, (assign b f (set_controller None))\<lparr>firstSelection := AList.delete p (firstSelection b)\<rparr>)"
    and "Inv ((assign b f (set_controller None))\<lparr>firstSelection := AList.delete p (firstSelection b)\<rparr>)"
    (is "Inv ?b'")
proof -
  from assms(1) have ck: "checkRep b = None" and fh: "first_held b" and mo: "matched_owned b"
    and te: "turn_exclusive b" by (simp_all add: Inv_def)
  from fh assms(2) obtain s1 where s1: "cellAt b f = Inr (Some s1)" "faceUp s1"
    "controller s1 = Some p" by (auto simp: first_held_def)
  from ck have d: "dims_ok b" by (simp add: checkRep_iff)
  from cellAt_Some_within[OF d s1(1)] s1(1) have sl: "slotAt b f = Inr (Some s1)"
    by (simp add: slotAt_def)
  show eff: "relinquishFirstOnly p b = (None, ?b')"
    by (rule relinquish_effect[OF ck assms(2) sl])
  from relinquish_returns_checked[OF eff assms(2)] have ck': "checkRep ?b' = None" .
  have cell: "cellAt (assign b f (set_controller None)) x =
      (if x = f then Inr (Some (set_controller None s1)) else cellAt b x)" for x
    by (simp add: cellAt_assign s1(1))
  have pg: "pending_get ?b' r = pending_get b r" for r by (simp add: pending_get_def)
  have "first_held ?b'"
    unfolding first_held_def
  proof (intro allI impI)
    fix r g assume a: "map_of (firstSelection ?b') r = Some g"
    then have r: "r \<noteq> p" "map_of (firstSelection b) r = Some g"
      by (auto simp: delete_conv' split: if_splits)
    with fh obtain s where s: "cellAt b g = Inr (Some s)" "faceUp s" "controller s = Some r"
      by (auto simp: first_held_def)
    have "g \<noteq> f" using s s1 r(1) by auto
    with s show "\<exists>s. cellAt ?b' g = Inr (Some s) \<and> faceUp s \<and> controller s = Some r"
      by (simp add: cell)
  qed
  moreover have "matched_owned ?b'"
    unfolding matched_owned_def
  proof (intro allI impI)
    fix r c c' x s
    assume a: "pending_get ?b' r = Some (Matched c c')" "x = c \<or> x = c'" "cellAt ?b' x = Inr (Some s)"
    then have m: "pending_get b r = Some (Matched c c')" by (simp add: pg)
    have "x \<noteq> f"
    proof
      assume "x = f"
      with mo m a(2) s1(1) have "controller s1 = Some r" unfolding matched_owned_def by blast
      with s1(3) have "r = p" by simp
      with te assms(2) m show False by (auto simp: turn_exclusive_def)
    qed
    with a(3) have "cellAt b x = Inr (Some s)" by (simp add: cell)
    with mo m a(2) show "controller s = Some r" unfolding matched_owned_def by blast
  qed
  moreover have "turn_exclusive ?b'"
    using te by (auto simp: turn_exclusive_def delete_conv' pg split: if_splits)
  ultimately show "Inv ?b'" using ck' by (simp add: Inv_def)
qed

lemma Inv_resolve:
  assumes "Inv b" "map_of (firstSelection b) p = Some f"
    and "cellAt b q = Inr (Some s2)" "within b q" "\<not> (faceUp s2 \<and> controller s2 \<noteq> None)"
  shows "Inv (snd (flipSecond q p b))"
proof -
  from assms(1) have ck: "checkRep b = None" and fh: "first_held b" and mo: "matched_owned b"
    and te: "turn_exclusive b" by (simp_all add: Inv_def)
  from fh assms(2) obtain s1 where s1: "cellAt b f = Inr (Some s1)" "faceUp s1"
    "controller s1 = Some p" by (auto simp: first_held_def)
  from ck have d: "dims_ok b" and co: "cells_ok b" by (simp_all add: checkRep_iff)
  from cellAt_Some_within[OF d s1(1)] s1(1) have sl1: "slotAt b f = Inr (Some s1)"
    by (simp add: slotAt_def)
  from assms(3,4) have sl2: "slotAt b q = Inr (Some s2)" by (simp add: slotAt_def)
  from co assms(3) have "slot_ok s2" by (auto simp: cells_ok_pos)
  with assms(5) have free2: "controller s2 = None" by (auto simp: slot_ok_def)
  with s1 assms(3) have fq: "f \<noteq> q" by auto
  define v where "v = (if label s1 = label s2 then Some p else None)"
  define out where "out = (if label s1 = label s2 then Matched f q else Mismatched f q)"
  let ?b3 = "assign (assign (assign b q turn_up) f (set_controller v)) q (set_controller v)"
  let ?b' = "?b3\<lparr>pending := AList.update p (Some out) (pending b),
                firstSelection := AList.delete p (firstSelection b)\<rparr>"
  note su = flipSecond_success[OF ck assms(2) sl1 s1(2) sl2 assms(5) v_def out_def]
  note ck' = su(2)
  have cell: "cellAt ?b3 x =
      (if x = f then Inr (Some (s1\<lparr>controller := v\<rparr>))
       else if x = q then Inr (Some (s2\<lparr>faceUp := True, controller := v\<rparr>))
       else cellAt b x)" for x
    using fq by (auto simp: cellAt_assign s1(1) assms(3) set_controller_def turn_up_def)
  have pg: "pending_get ?b' r = (if r = p then Some out else pending_get b r)" for r
    by (simp add: pending_get_def update_conv')
  have "first_held ?b'"
    unfolding first_held_def
  proof (intro allI impI)
    fix r g assume a: "map_of (firstSelection ?b') r = Some g"
    then have r: "r \<noteq> p" "map_of (firstSelection b) r = Some g"
      by (auto simp: delete_conv' split: if_splits)
    with fh obtain s where s: "cellAt b g = Inr (Some s)" "faceUp s" "controller s = Some r"
      by (auto simp: first_held_def)
    have "g \<noteq> f" using s s1 r(1) by auto
    moreover have "g \<noteq> q" using s assms(3) free2 by auto
    ultimately show "\<exists>s. cellAt ?b' g = Inr (Some s) \<and> faceUp s \<and> controller s = Some r"
      using s by (simp add: cell)
  qed
  moreover have "matched_owned ?b'"
    unfolding matched_owned_def
  proof (intro allI impI)
    fix r c c' x s
    assume a: "pending_get ?b' r = Some (Matched c c')" "x = c \<or> x = c'" "cellAt ?b' x = Inr (Some s)"
    show "controller s = Some r"
    proof (cases "r = p")
      case True
      with a(1) have "out = Matched c c'" by (simp add: pg)
      then have cv: "c = f" "c' = q" "v = Some p"
        by (auto simp: out_def v_def split: if_splits)
      from a(3) have cx: "cellAt ?b3 x = Inr (Some s)" by simp
      from a(2) cv have "x = f \<or> x = q" by simp
      with cx cell[of x] have "controller s = v" by (auto split: if_splits)
      with cv True show ?thesis by simp
    next
      case False
      with a(1) have m: "pending_get b r = Some (Matched c c')" by (simp add: pg)
      have "x \<noteq> f"
      proof
        assume "x = f"
        with mo m a(2) s1(1) have "controller s1 = Some r" unfolding matched_owned_def by blast
        with s1(3) False show False by simp
      qed
      moreover have "x \<noteq> q"
      proof
        assume "x = q"
        with mo m a(2) assms(3) have "controller s2 = Some r" unfolding matched_owned_def by blast
        with free2 show False by simp
      qed
      ultimately have "cellAt b x = Inr (Some s)" using a(3) by (simp add: cell)
      with mo m a(2) show ?thesis unfolding matched_owned_def by blast
    qed
  qed
  moreover have "turn_exclusive ?b'"
    using te by (auto simp: turn_exclusive_def delete_conv' pg split: if_splits)
  ultimately have "Inv ?b'" using ck' by (simp add: Inv_def)
  with su(1) show ?thesis by simp
qed


lemma Inv_flipSecond:
  assumes "Inv b"
  shows "Inv (snd (flipSecond q p b))"
proof (cases "map_of (firstSelection b) p")
  case None
  then have "flipSecond q p b = (Some NoFirstCard, b)" by (simp add: flipSecond_def)
  with assms show ?thesis by simp
next
  case (Some f)
  from assms have ck: "checkRep b = None" and fh: "first_held b" by (simp_all add: Inv_def)
  from ck have d: "dims_ok b" by (simp add: checkRep_iff)
  from fh Some obtain s1 where s1: "cellAt b f = Inr (Some s1)" by (auto simp: first_held_def)
  from cellAt_Some_within[OF d s1] s1 have sl: "slotAt b f = Inr (Some s1)"
    by (simp add: slotAt_def)
  let ?r = "(assign b f (set_controller None))\<lparr>firstSelection := AList.delete p (firstSelection b)\<rparr>"
  note released = Inv_relinquish(2)[OF assms Some]
  show ?thesis
  proof (cases "within b q")
    case False
    then have "flipSecond q p b = (Some EmptySpace_2A, ?r)"
      by (intro flipSecond_fail_effect(1)[OF ck Some sl]) simp
    with released show ?thesis by simp
  next
    case True
    from cellAt_within[OF d True] obtain x where x: "cellAt b q = Inr x" ..
    show ?thesis
    proof (cases x)
      case None
      with x have "flipSecond q p b = (Some EmptySpace_2A, ?r)"
        by (intro flipSecond_fail_effect(1)[OF ck Some sl]) simp
      with released show ?thesis by simp
    next
      case (Some s2)
      with x have c2: "cellAt b q = Inr (Some s2)" by simp
      show ?thesis
      proof (cases "faceUp s2 \<and> controller s2 \<noteq> None")
        case True
        then have "faceUp s2" "controller s2 \<noteq> None" by simp_all
        from flipSecond_fail_effect(2)[OF ck \<open>map_of (firstSelection b) p = Some f\<close> sl
            \<open>within b q\<close> c2 this]
        have "flipSecond q p b = (Some Controlled_2B, ?r)" .
        with released show ?thesis by simp
      next
        case False
        from Inv_resolve[OF assms \<open>map_of (firstSelection b) p = Some f\<close> c2 \<open>within b q\<close> False]
        show ?thesis .
      qed
    qed
  qed
qed

lemma reachable_Inv: "reachable b \<Longrightarrow> Inv b"
proof (induction rule: reachable.induct)
  case (reach_construct n m labels b)
  then show ?case by (rule Inv_construct)
next
  case (reach_settle b p)
  from Inv_settle[OF reach_settle.IH, of p] show ?case by force
next
  case (reach_flipFirst b q p)
  then show ?case by (simp add: Inv_flipFirst)
next
  case (reach_flipSecond b q p)
  then show ?case by (simp add: Inv_flipSecond)
qed

lemma checkRep_face_down:
  assumes "checkRep b = None"
  shows "face_down_uncontrolled b"
  unfolding face_down_uncontrolled_def list_all_iff
proof (intro ballI)
  fix rw cell assume "rw \<in> set (grid b)" "cell \<in> set rw"
  then obtain i j where ij: "i < length (grid b)" "grid b ! i = rw" "j < length rw" "rw ! j = cell"
    by (auto simp: in_set_conv_nth)
  then have g: "getCell b (int i) (int j) = Inr cell" by (simp add: getCell_int)
  from assms have "cells_ok b" by (simp add: checkRep_iff)
  with g show "case cell of None \<Rightarrow> True | Some s \<Rightarrow> \<not> faceUp s \<longrightarrow> controller s = None"
    by (cases cell) (auto simp: cells_ok_def slot_ok_def)
qed

text \<open>On a reachable board the hypotheses that the theorems on second flips make about
  the first selection hold.\<close>

lemma reachable_first_selection:
  assumes "reachable b" "map_of (firstSelection b) p = Some f"
  shows "\<exists>s1. slotAt b f = Inr (Some s1) \<and> faceUp s1 \<and> controller s1 = Some p"
proof -
  from assms(1) have i: "Inv b" by (rule reachable_Inv)
  then have d: "dims_ok b" and fh: "first_held b" by (simp_all add: Inv_def checkRep_iff)
  from fh assms(2) obtain s1 where s1: "cellAt b f = Inr (Some s1)" "faceUp s1"
    "controller s1 = Some p" by (auto simp: first_held_def)
  from cellAt_Some_within[OF d s1(1)] s1 show ?thesis by (auto simp: slotAt_def)
qed

text \<open>
  Claim C2. On every reachable board every slot that is face-down has no controller, and
  \<open>checkRep\<close> passes. Reachable boards are closed under the mutating operations by
  definition, so the same holds of the board each operation leaves behind, whether the
  operation returned or threw.
\<close>

theorem reachable_face_down_uncontrolled:
  assumes "reachable b"
  shows "face_down_uncontrolled b \<and> checkRep b = None \<and>
    face_down_uncontrolled (snd (settleBeforeNewFirstMove p b)) \<and>
    face_down_uncontrolled (snd (flipFirst q p b)) \<and>
    face_down_uncontrolled (snd (flipSecond q p b))"
proof -
  have fd: "face_down_uncontrolled c" "checkRep c = None" if "reachable c" for c
  proof -
    from that have "Inv c" by (rule reachable_Inv)
    then show "checkRep c = None" by (simp add: Inv_def)
    then show "face_down_uncontrolled c" by (rule checkRep_face_down)
  qed
  from assms have "reachable (snd (settleBeforeNewFirstMove p b))"
    "reachable (snd (flipFirst q p b))" "reachable (snd (flipSecond q p b))"
    by (rule reachable.intros)+
  with assms fd show ?thesis by blast
qed

theorem reachable_face_down_uncontrolled_witness:
  "reachable board_alice_first \<and> face_down_uncontrolled board_alice_first \<and>
   checkRep board_alice_first = None \<and>
   face_down_uncontrolled (snd (flipSecond (Pos 1 1) alice board_alice_first))"
proof -
  have "checkRep board_fresh = None" by (simp add: board_fresh_def eval_defs)
  then have "construct 2 2 [card_A, card_A, card_B, card_B] = Inr board_fresh"
    by (simp add: construct_def initial_grid_def board_fresh_def upt_rec)
  then have r0: "reachable board_fresh" by (rule reach_construct)
  have "snd (flipFirst (Pos 0 0) alice board_fresh) = board_alice_first"
    by (simp add: board_fresh_def board_alice_first_def op_defs eval_defs)
  with reach_flipFirst[OF r0, of "Pos 0 0" alice] have r1: "reachable board_alice_first" by simp
  from reachable_face_down_uncontrolled[OF r1, of alice "Pos 1 1"] r1 show ?thesis by simp
qed

end
